theory Spec2Isabelle
  imports Main
begin

section \<open>Exceptions\<close>

text \<open>
  The notebooks raise no exception of their own; every failure comes out of a library
  call.  These are the Python exceptions that the modelled calls can raise.
  \<open>DirectoryNotEmpty\<close> is \<^verbatim>\<open>OSError\<close> with errno \<^verbatim>\<open>ENOTEMPTY\<close>, and
  \<open>Busy\<close> is \<^verbatim>\<open>OSError\<close> with errno \<^verbatim>\<open>EBUSY\<close> (removing the root directory) and
  \<open>InvalidArgument\<close> is \<^verbatim>\<open>OSError\<close> with errno \<^verbatim>\<open>EINVAL\<close>.
\<close>

datatype exn =
    TypeError
  | KeyError
  | ValueError
  | FileNotFoundError
  | FileExistsError
  | NotADirectoryError
  | IsADirectoryError
  | DirectoryNotEmpty
  | Busy
  | InvalidArgument

section \<open>Strings\<close>

text \<open>
  A Python string is a sequence of code points; \<open>ustr\<close> writes one from its characters.
\<close>

type_synonym unicode = "nat list"

definition ustr :: "string \<Rightarrow> unicode" where
  "ustr s = map of_char s"

section \<open>Web scraping notebook: the pagination loops\<close>

subsection \<open>HTML pagination\<close>

text \<open>
  A \<open>Tag\<close> of BeautifulSoup is used by the loops only through its attributes, so a tag
  is its attribute dictionary.  A parsed page (\<^verbatim>\<open>soup\<close>) is used through two selectors:
  \<^verbatim>\<open>soup.select_one('li.next a')\<close>, which is a tag or \<^verbatim>\<open>None\<close>, and
  \<^verbatim>\<open>soup.select('div.quote')\<close>, a list of elements.

  A site maps the link \<^verbatim>\<open>next_page\<close> to the page that
  \<^verbatim>\<open>BeautifulSoup(requests.get(urljoin(quotes_url, next_page)).content, 'html.parser')\<close>
  evaluates to.
\<close>

type_synonym tag = "string \<rightharpoonup> string"

record 'q soup =
  select_one_li_next_a :: "tag option"
  select_div_quote :: "'q list"

type_synonym 'q site = "string \<Rightarrow> 'q soup"

text \<open>
  \<^verbatim>\<open>soup.select_one('li.next a')['href']\<close>: subscripting \<^verbatim>\<open>None\<close> raises
  \<^verbatim>\<open>TypeError\<close>, subscripting a tag that has no such attribute raises \<^verbatim>\<open>KeyError\<close>.
\<close>

definition subscript :: "tag option \<Rightarrow> string \<Rightarrow> exn + string" where
  "subscript t key =
     (case t of
        None \<Rightarrow> Inl TypeError
      | Some attrs \<Rightarrow> (case attrs key of None \<Rightarrow> Inl KeyError | Some v \<Rightarrow> Inr v))"

text \<open>
  The page-count cell:
  \<^verbatim>\<open>
  next_page = '/page/1/'
  while next_page:
      response = requests.get(urljoin(quotes_url, next_page))
      soup = BeautifulSoup(response.content, 'html.parser')
      try:
          next_page = soup.select_one('li.next a')['href']
      except TypeError:
          break
  \<close>
  The loop may run forever, so it is a partial function: \<open>None\<close> is "does not return".
  A returned pair holds the outcome (\<open>Inr\<close> the final value of \<^verbatim>\<open>next_page\<close>, \<open>Inl\<close> an
  exception that the handler does not catch) and the links fetched, in order.  The list
  of fetched links is a log added to the model; the code keeps no such list.
\<close>

partial_function (option) count_pages_from ::
  "'q site \<Rightarrow> string \<Rightarrow> string list \<Rightarrow> ((exn + string) \<times> string list) option" where
  "count_pages_from site next_page fetched =
     (if next_page \<noteq> [] then
        (let soup = site next_page; fetched' = fetched @ [next_page] in
         case subscript (select_one_li_next_a soup) ''href'' of
           Inr href \<Rightarrow> count_pages_from site href fetched'
         | Inl e \<Rightarrow> if e = TypeError then Some (Inr next_page, fetched') else Some (Inl e, fetched'))
      else Some (Inr next_page, fetched))"

declare count_pages_from.simps [code]

definition count_pages :: "'q site \<Rightarrow> ((exn + string) \<times> string list) option" where
  "count_pages site = count_pages_from site ''/page/1/'' []"

text \<open>
  The quote-collection cell is the same loop with one more statement,
  \<^verbatim>\<open>quotes.extend(soup.select('div.quote'))\<close>, before the \<^verbatim>\<open>try\<close>.
\<close>

partial_function (option) collect_quotes_from ::
  "'q site \<Rightarrow> string \<Rightarrow> string list \<Rightarrow> 'q list \<Rightarrow> ((exn + string) \<times> string list \<times> 'q list) option" where
  "collect_quotes_from site next_page fetched quotes =
     (if next_page \<noteq> [] then
        (let soup = site next_page; fetched' = fetched @ [next_page];
             quotes' = quotes @ select_div_quote soup in
         case subscript (select_one_li_next_a soup) ''href'' of
           Inr href \<Rightarrow> collect_quotes_from site href fetched' quotes'
         | Inl e \<Rightarrow> if e = TypeError then Some (Inr next_page, fetched', quotes')
                    else Some (Inl e, fetched', quotes'))
      else Some (Inr next_page, fetched, quotes))"

declare collect_quotes_from.simps [code]

definition collect_quotes :: "'q site \<Rightarrow> ((exn + string) \<times> string list \<times> 'q list) option" where
  "collect_quotes site = collect_quotes_from site ''/page/1/'' [] []"

text \<open>
  What the loop's characterisation is stated with: \<open>follows site ps\<close> says that each link
  of \<open>ps\<close> after the first is the non-empty \<^verbatim>\<open>href\<close> of the next link of the page before
  it, and \<open>stops site p r\<close> says that the loop leaves at page \<open>p\<close> with outcome \<open>r\<close>.
\<close>

fun follows :: "'q site \<Rightarrow> string list \<Rightarrow> bool" where
  "follows site [] = True"
| "follows site [p] = True"
| "follows site (p # p' # ps) =
     (p' \<noteq> [] \<and> subscript (select_one_li_next_a (site p)) ''href'' = Inr p' \<and>
      follows site (p' # ps))"

definition stops :: "'q site \<Rightarrow> string \<Rightarrow> exn + string \<Rightarrow> bool" where
  "stops site p r =
     (case subscript (select_one_li_next_a (site p)) ''href'' of
        Inr href \<Rightarrow> href = [] \<and> r = Inr []
      | Inl e \<Rightarrow> if e = TypeError then r = Inr p else r = Inl e)"

subsection \<open>JSON API pagination\<close>

text \<open>
  \<^verbatim>\<open>response.json()\<close> gives the Python value of the JSON document in the body: \<^verbatim>\<open>None\<close>,
  a boolean, a number, a string, a list or a dictionary.  The loops take it as it comes,
  so the model has all of them.  Numbers are of any type with a zero, which is all that
  the loops ask of them; a dictionary is the list of its items, and of two items with
  the same key the first counts.
\<close>

datatype 'n json =
    JNull
  | JBool bool
  | JNumber 'n
  | JString unicode
  | JArray "'n json list"
  | JObject "(unicode \<times> 'n json) list"

text \<open>
  \<^verbatim>\<open>data[key]\<close> for a string \<^verbatim>\<open>key\<close>: a dictionary without the key raises \<^verbatim>\<open>KeyError\<close>, and
  a value that is not a dictionary raises \<^verbatim>\<open>TypeError\<close> (a list or a string takes integer
  indices only, the others take none).
\<close>

fun getitem :: "'n json \<Rightarrow> unicode \<Rightarrow> exn + 'n json" where
  "getitem (JObject items) key = (case map_of items key of None \<Rightarrow> Inl KeyError | Some v \<Rightarrow> Inr v)"
| "getitem v key = Inl TypeError"

text \<open>The truth value that \<^verbatim>\<open>if\<close> takes of a value.\<close>

fun truthy :: "('n::zero) json \<Rightarrow> bool" where
  "truthy JNull = False"
| "truthy (JBool b) = b"
| "truthy (JNumber x) = (x \<noteq> 0)"
| "truthy (JString s) = (s \<noteq> [])"
| "truthy (JArray xs) = (xs \<noteq> [])"
| "truthy (JObject items) = (items \<noteq> [])"

text \<open>
  What \<^verbatim>\<open>list.extend\<close> reads from its argument: the elements of a list, the characters of
  a string, the keys of a dictionary; the other values are not iterable.
\<close>

fun iter :: "'n json \<Rightarrow> exn + 'n json list" where
  "iter (JArray xs) = Inr xs"
| "iter (JString s) = Inr (map (\<lambda>c. JString [c]) s)"
| "iter (JObject items) = Inr (map JString (rev (remdups (rev (map fst items)))))"
| "iter v = Inl TypeError"

text \<open>
  An API maps the page number to what
  \<^verbatim>\<open>requests.get(quotes_url_json, params={'page': next_page}).json()\<close> evaluates to: the
  value of the document, or the exception raised, which is \<^verbatim>\<open>ValueError\<close> when the body is
  not a JSON document.
\<close>

type_synonym 'n api = "int \<Rightarrow> exn + 'n json"

text \<open>
  The page-count cell:
  \<^verbatim>\<open>
  next_page = 1
  while next_page:
      response = requests.get(quotes_url_json, params={'page': next_page})
      data = response.json()
      if data['has_next']:
          next_page += 1
      else:
          break
  print(f"There are {next_page} pages to scrape.")
  \<close>
  The loop may run forever, so it is a partial function: \<open>None\<close> is "does not return".
  A returned pair holds the outcome (\<open>Inr\<close> the final \<^verbatim>\<open>next_page\<close>, which the cell prints as
  the number of pages, \<open>Inl\<close> the exception that ends the cell, for the loop has no
  handler) and the page numbers requested, in order; the list of page numbers is a log
  added to the model.
\<close>

partial_function (option) count_api_pages_from ::
  "('n::zero) api \<Rightarrow> int \<Rightarrow> int list \<Rightarrow> ((exn + int) \<times> int list) option" where
  "count_api_pages_from api next_page requested =
     (if next_page \<noteq> 0 then
        (let requested' = requested @ [next_page] in
         case api next_page of
           Inl e \<Rightarrow> Some (Inl e, requested')
         | Inr data \<Rightarrow>
             (case getitem data (ustr ''has_next'') of
                Inl e \<Rightarrow> Some (Inl e, requested')
              | Inr flag \<Rightarrow>
                  if truthy flag then count_api_pages_from api (next_page + 1) requested'
                  else Some (Inr next_page, requested')))
      else Some (Inr next_page, requested))"

declare count_api_pages_from.simps [code]

definition count_api_pages :: "('n::zero) api \<Rightarrow> ((exn + int) \<times> int list) option" where
  "count_api_pages api = count_api_pages_from api 1 []"

text \<open>
  The quote-collection cell is the same loop with one more statement,
  \<^verbatim>\<open>quotes.extend(data['quotes'])\<close>, before the \<^verbatim>\<open>if\<close>.  The result holds in addition the
  list \<^verbatim>\<open>quotes\<close> as it is when the cell ends.
\<close>

partial_function (option) collect_api_quotes_from ::
  "('n::zero) api \<Rightarrow> int \<Rightarrow> int list \<Rightarrow> 'n json list \<Rightarrow>
     ((exn + int) \<times> int list \<times> 'n json list) option" where
  "collect_api_quotes_from api next_page requested quotes =
     (if next_page \<noteq> 0 then
        (let requested' = requested @ [next_page] in
         case api next_page of
           Inl e \<Rightarrow> Some (Inl e, requested', quotes)
         | Inr data \<Rightarrow>
             (case getitem data (ustr ''quotes'') of
                Inl e \<Rightarrow> Some (Inl e, requested', quotes)
              | Inr v \<Rightarrow>
                  (case iter v of
                     Inl e \<Rightarrow> Some (Inl e, requested', quotes)
                   | Inr added \<Rightarrow>
                       (let quotes' = quotes @ added in
                        case getitem data (ustr ''has_next'') of
                          Inl e \<Rightarrow> Some (Inl e, requested', quotes')
                        | Inr flag \<Rightarrow>
                            if truthy flag
                            then collect_api_quotes_from api (next_page + 1) requested' quotes'
                            else Some (Inr next_page, requested', quotes')))))
      else Some (Inr next_page, requested, quotes))"

declare collect_api_quotes_from.simps [code]

definition collect_api_quotes ::
  "('n::zero) api \<Rightarrow> ((exn + int) \<times> int list \<times> 'n json list) option" where
  "collect_api_quotes api = collect_api_quotes_from api 1 [] []"

text \<open>
  What the characterisation of the loops is stated with.  \<open>page_flag api j\<close> is what
  \<^verbatim>\<open>data['has_next']\<close> comes to on page \<open>j\<close>: its truth value, or the exception of the
  request or of the lookup; \<open>page_quotes\<close> is the same for what \<^verbatim>\<open>quotes.extend\<close> reads, and
  \<open>quotes_of\<close> the quotes that a page adds.  \<open>ends api n r\<close> says that the page-count loop
  leaves at page \<open>n\<close> with outcome \<open>r\<close>, and \<open>collecting_ends\<close> the same of the
  quote-collection loop.
\<close>

definition page_flag :: "('n::zero) api \<Rightarrow> int \<Rightarrow> exn + bool" where
  "page_flag api j =
     (case api j of
        Inl e \<Rightarrow> Inl e
      | Inr data \<Rightarrow>
          (case getitem data (ustr ''has_next'') of Inl e \<Rightarrow> Inl e | Inr flag \<Rightarrow> Inr (truthy flag)))"

definition page_quotes :: "'n api \<Rightarrow> int \<Rightarrow> exn + 'n json list" where
  "page_quotes api j =
     (case api j of
        Inl e \<Rightarrow> Inl e
      | Inr data \<Rightarrow>
          (case getitem data (ustr ''quotes'') of Inl e \<Rightarrow> Inl e | Inr v \<Rightarrow> iter v))"

definition quotes_of :: "'n api \<Rightarrow> int \<Rightarrow> 'n json list" where
  "quotes_of api j = (case page_quotes api j of Inr added \<Rightarrow> added | Inl e \<Rightarrow> [])"

definition ends :: "('n::zero) api \<Rightarrow> int \<Rightarrow> exn + int \<Rightarrow> bool" where
  "ends api n r =
     (case page_flag api n of
        Inl e \<Rightarrow> r = Inl e
      | Inr b \<Rightarrow> \<not> b \<and> r = Inr n)"

definition collecting_ends :: "('n::zero) api \<Rightarrow> int \<Rightarrow> exn + int \<Rightarrow> bool" where
  "collecting_ends api n r =
     (case page_quotes api n of
        Inl e \<Rightarrow> r = Inl e
      | Inr added \<Rightarrow> ends api n r)"

definition run_to :: "('n::zero) api \<Rightarrow> int \<Rightarrow> int \<Rightarrow> exn + int \<Rightarrow> bool" where
  "run_to api k n r \<longleftrightarrow>
     k \<le> n \<and> (\<forall>j. k \<le> j \<and> j < n \<longrightarrow> page_flag api j = Inr True) \<and> ends api n r"

definition collecting_to :: "('n::zero) api \<Rightarrow> int \<Rightarrow> int \<Rightarrow> exn + int \<Rightarrow> bool" where
  "collecting_to api k n r \<longleftrightarrow>
     k \<le> n \<and>
     (\<forall>j. k \<le> j \<and> j < n \<longrightarrow>
        page_flag api j = Inr True \<and> (\<exists>added. page_quotes api j = Inr added)) \<and>
     collecting_ends api n r"

subsection \<open>Concrete sites and APIs, for the instances below\<close>

definition two_page_site :: "nat site" where
  "two_page_site p =
     (if p = ''/page/1/''
      then \<lparr>select_one_li_next_a = Some [''href'' \<mapsto> ''/page/2/''], select_div_quote = [1, 2]\<rparr>
      else \<lparr>select_one_li_next_a = None, select_div_quote = [3]\<rparr>)"

definition empty_href_site :: "nat site" where
  "empty_href_site p = \<lparr>select_one_li_next_a = Some [''href'' \<mapsto> ''''], select_div_quote = []\<rparr>"

definition no_href_site :: "nat site" where
  "no_href_site p = \<lparr>select_one_li_next_a = Some Map.empty, select_div_quote = []\<rparr>"

definition three_pages :: "int api" where
  "three_pages n =
     Inr (JObject [(ustr ''has_next'', JBool (n < 3)), (ustr ''quotes'', JArray [JNumber n])])"

definition empty_objects :: "int api" where
  "empty_objects n = Inr (JObject [])"


section \<open>Pathlib notebook: the filesystem\<close>

text \<open>
  A path is the list of its components below the filesystem root; \<open>[]\<close> is the root
  itself, and \<^verbatim>\<open>p / 'x'\<close> is \<open>p @ [''x'']\<close>.  The filesystem is a tree of regular files
  (with their contents as stored), directories (with their entries in the order in which
  the operating system lists them) and broken symbolic links, for which both
  \<^verbatim>\<open>is_file()\<close> and \<^verbatim>\<open>is_dir()\<close> answer \<^verbatim>\<open>False\<close>.  Symbolic links to existing
  targets, and permissions, are outside the model.
\<close>

type_synonym path = "string list"

datatype node =
    RegularFile string
  | Directory "(string \<times> node) list"
  | BrokenSymlink

text \<open>
  The state that the notebook's cells act on is the filesystem together with a log of the
  system calls that changed it, in order.  The log is added to the model, so that the
  order of a traversal can be stated; no call reads it.
\<close>

datatype syscall =
    Unlink path
  | Rmdir path
  | Mkdir path
  | Write path string
  | Rename path path

record world =
  root :: node
  calls :: "syscall list"

text \<open>
  A call that changes the filesystem either completes, in a new state, or raises, in the
  state at the time of the raise.
\<close>

datatype outcome = Done world | Raised exn world

text \<open>
  Path resolution, with the error of the operating system: a missing component is
  \<^verbatim>\<open>ENOENT\<close>, a regular file used as a directory is \<^verbatim>\<open>ENOTDIR\<close>.
\<close>

fun resolve :: "node \<Rightarrow> path \<Rightarrow> exn + node" where
  "resolve n [] = Inr n"
| "resolve n (x # p) =
     (case n of
        Directory es \<Rightarrow> (case map_of es x of None \<Rightarrow> Inl FileNotFoundError | Some c \<Rightarrow> resolve c p)
      | RegularFile s \<Rightarrow> Inl NotADirectoryError
      | BrokenSymlink \<Rightarrow> Inl FileNotFoundError)"

text \<open>\<open>modify f p r\<close> rewrites with \<open>f\<close> the entries of the directory at \<open>p\<close>.\<close>

fun modify :: "((string \<times> node) list \<Rightarrow> (string \<times> node) list) \<Rightarrow> path \<Rightarrow> node \<Rightarrow> node" where
  "modify f [] n = (case n of Directory es \<Rightarrow> Directory (f es) | _ \<Rightarrow> n)"
| "modify f (x # p) n =
     (case n of
        Directory es \<Rightarrow> Directory (map (\<lambda>(k, c). if k = x then (k, modify f p c) else (k, c)) es)
      | _ \<Rightarrow> n)"

text \<open>\<^verbatim>\<open>Path.parent\<close> and \<^verbatim>\<open>Path.name\<close>; the root is its own parent and has the name \<^verbatim>\<open>''\<close>.\<close>

definition parent :: "path \<Rightarrow> path" where
  "parent p = butlast p"

definition name :: "path \<Rightarrow> string" where
  "name p = (if p = [] then [] else last p)"

text \<open>
  Removing the directory entry of \<open>p\<close>, and setting it: an entry that exists is replaced
  in its place, a new one is listed last.
\<close>

definition remove_entry :: "path \<Rightarrow> node \<Rightarrow> node" where
  "remove_entry p r = modify (filter (\<lambda>(k, c). k \<noteq> name p)) (parent p) r"

definition set_entry :: "path \<Rightarrow> node \<Rightarrow> node \<Rightarrow> node" where
  "set_entry p n r =
     modify (\<lambda>es. if name p \<in> fst ` set es
                   then map (\<lambda>(k, c). if k = name p then (k, n) else (k, c)) es
                   else es @ [(name p, n)]) (parent p) r"

subsection \<open>The methods of \<^verbatim>\<open>Path\<close> that the cells call\<close>

text \<open>
  \<^verbatim>\<open>is_file()\<close> and \<^verbatim>\<open>is_dir()\<close> answer \<^verbatim>\<open>False\<close> where the path does not resolve.
\<close>

definition is_file :: "world \<Rightarrow> path \<Rightarrow> bool" where
  "is_file w p = (case resolve (root w) p of Inr (RegularFile s) \<Rightarrow> True | _ \<Rightarrow> False)"

definition is_dir :: "world \<Rightarrow> path \<Rightarrow> bool" where
  "is_dir w p = (case resolve (root w) p of Inr (Directory es) \<Rightarrow> True | _ \<Rightarrow> False)"

text \<open>
  \<^verbatim>\<open>iterdir()\<close> reads the whole listing (\<^verbatim>\<open>os.listdir\<close>) when the iteration starts, so
  the paths it yields are those of the entries at that moment.
\<close>

definition iterdir :: "world \<Rightarrow> path \<Rightarrow> exn + path list" where
  "iterdir w p =
     (case resolve (root w) p of
        Inl e \<Rightarrow> Inl e
      | Inr (Directory es) \<Rightarrow> Inr (map (\<lambda>(k, c). p @ [k]) es)
      | Inr _ \<Rightarrow> Inl NotADirectoryError)"

definition unlink :: "world \<Rightarrow> path \<Rightarrow> outcome" where
  "unlink w p =
     (case resolve (root w) p of
        Inl e \<Rightarrow> Raised e w
      | Inr (Directory es) \<Rightarrow> Raised IsADirectoryError w
      | Inr _ \<Rightarrow> Done (w\<lparr>root := remove_entry p (root w), calls := calls w @ [Unlink p]\<rparr>))"

text \<open>
  \<^verbatim>\<open>Path.rmdir()\<close>, named \<open>Path_rmdir\<close> here because the notebook defines a function
  \<^verbatim>\<open>rmdir\<close> of its own.  The directory must be empty.
\<close>

definition Path_rmdir :: "world \<Rightarrow> path \<Rightarrow> outcome" where
  "Path_rmdir w p =
     (case resolve (root w) p of
        Inl e \<Rightarrow> Raised e w
      | Inr (Directory es) \<Rightarrow>
          if p = [] then Raised Busy w
          else if es \<noteq> [] then Raised DirectoryNotEmpty w
          else Done (w\<lparr>root := remove_entry p (root w), calls := calls w @ [Rmdir p]\<rparr>)
      | Inr _ \<Rightarrow> Raised NotADirectoryError w)"




definition write_text :: "world \<Rightarrow> path \<Rightarrow> string \<Rightarrow> outcome" where
  "write_text w p data =
     (case resolve (root w) p of
        Inr (Directory es) \<Rightarrow> Raised IsADirectoryError w
      | Inr BrokenSymlink \<Rightarrow> Raised FileNotFoundError w
      | Inr (RegularFile s) \<Rightarrow>
          Done (w\<lparr>root := set_entry p (RegularFile data) (root w),
                  calls := calls w @ [Write p data]\<rparr>)
      | Inl e \<Rightarrow>
          if e = FileNotFoundError \<and> p \<noteq> [] \<and> is_dir w (parent p)
          then Done (w\<lparr>root := set_entry p (RegularFile data) (root w),
                       calls := calls w @ [Write p data]\<rparr>)
          else Raised e w)"


text \<open>
  \<^verbatim>\<open>os.mkdir\<close>, and \<^verbatim>\<open>Path.mkdir\<close> as pathlib writes it:
  \<^verbatim>\<open>
  def mkdir(self, mode=0o777, parents=False, exist_ok=False):
      try:
          os.mkdir(self, mode)
      except FileNotFoundError:
          if not parents or self.parent == self:
              raise
          self.parent.mkdir(parents=True, exist_ok=True)
          self.mkdir(mode, parents=False, exist_ok=exist_ok)
      except OSError:
          if not exist_ok or not self.is_dir():
              raise
  \<close>
\<close>

definition os_mkdir :: "world \<Rightarrow> path \<Rightarrow> outcome" where
  "os_mkdir w p =
     (case resolve (root w) p of
        Inr n \<Rightarrow> Raised FileExistsError w
      | Inl e \<Rightarrow>
          if e = FileNotFoundError \<and> p \<noteq> [] \<and> is_dir w (parent p)
          then Done (w\<lparr>root := set_entry p (Directory []) (root w), calls := calls w @ [Mkdir p]\<rparr>)
          else Raised e w)"

function mkdir :: "world \<Rightarrow> path \<Rightarrow> bool \<Rightarrow> bool \<Rightarrow> outcome" where
  "mkdir w p parents exist_ok =
     (case os_mkdir w p of
        Done w' \<Rightarrow> Done w'
      | Raised e w' \<Rightarrow>
          if e = FileNotFoundError then
            (if \<not> parents \<or> parent p = p then Raised e w'
             else (case mkdir w (parent p) True True of
                     Raised e' w'' \<Rightarrow> Raised e' w''
                   | Done w'' \<Rightarrow> mkdir w'' p False exist_ok))
          else if \<not> exist_ok \<or> \<not> is_dir w p then Raised e w'
          else Done w)"
  by pat_completeness auto
termination
  by (relation "measures [\<lambda>(w, p, parents, exist_ok). length p,
                          \<lambda>(w, p, parents, exist_ok). if parents then 1 else 0]")
     (auto simp: parent_def intro: diff_less)

subsection \<open>The parts of a name, and \<^verbatim>\<open>Path.rename\<close>\<close>

text \<open>
  \<^verbatim>\<open>str.rfind\<close> gives the highest index at which the character occurs; \<open>None\<close> stands for
  the \<^verbatim>\<open>-1\<close> of Python.
\<close>

definition rfind :: "char \<Rightarrow> string \<Rightarrow> nat option" where
  "rfind c s =
     (if c \<in> set s then Some (length s - 1 - length (takeWhile (\<lambda>x. x \<noteq> c) (rev s))) else None)"

text \<open>
  \<^verbatim>\<open>Path.suffix\<close> and \<^verbatim>\<open>Path.stem\<close>, as pathlib has them:
  \<^verbatim>\<open>i = name.rfind('.')\<close>, and the name is cut at \<^verbatim>\<open>i\<close> when \<^verbatim>\<open>0 < i < len(name) - 1\<close>.
  A name that starts with its only dot, or ends with a dot, has no suffix.
\<close>

definition suffix :: "path \<Rightarrow> string" where
  "suffix p =
     (let name = name p in
      case rfind (CHR ''.'') name of
        Some i \<Rightarrow> if 0 < i \<and> i < length name - 1 then drop i name else []
      | None \<Rightarrow> [])"

definition stem :: "path \<Rightarrow> string" where
  "stem p =
     (let name = name p in
      case rfind (CHR ''.'') name of
        Some i \<Rightarrow> if 0 < i \<and> i < length name - 1 then take i name else name
      | None \<Rightarrow> name)"

text \<open>
  \<^verbatim>\<open>Path.with_name(name)\<close> parses the new name as a path of its own and raises
  \<^verbatim>\<open>ValueError\<close> unless it has exactly one part and no root; it also raises when the path
  it is called on has no name.  \<open>str_split\<close> is \<^verbatim>\<open>str.split(sep)\<close>, and \<open>parse_parts\<close>
  the parts that pathlib keeps of a string without a root: those that are neither empty
  nor \<^verbatim>\<open>'.'\<close>.
\<close>

fun str_split :: "char \<Rightarrow> string \<Rightarrow> string list" where
  "str_split sep [] = [[]]"
| "str_split sep (x # xs) =
     (if x = sep then [] # str_split sep xs
      else (case str_split sep xs of y # ys \<Rightarrow> (x # y) # ys | [] \<Rightarrow> [[x]]))"

definition parse_parts :: "string \<Rightarrow> string list" where
  "parse_parts s = filter (\<lambda>x. x \<noteq> [] \<and> x \<noteq> ''.'') (str_split (CHR ''/'') s)"

definition with_name :: "path \<Rightarrow> string \<Rightarrow> exn + path" where
  "with_name p n =
     (if name p = [] then Inl ValueError
      else if n = [] \<or> last n = CHR ''/'' \<or> hd n = CHR ''/'' \<or> length (parse_parts n) \<noteq> 1
      then Inl ValueError
      else Inr (parent p @ [n]))"

text \<open>
  \<^verbatim>\<open>Path.rename(target)\<close> is \<^verbatim>\<open>os.rename\<close>, on a POSIX system \<^verbatim>\<open>rename(2)\<close>.  The
  source must exist.  Renaming a path to itself does nothing.  A target that exists is
  replaced without notice when source and target are both not directories, or when the
  target is an empty directory and the source a directory; the other combinations raise.
  A target that does not exist needs a parent that is a directory.  A directory cannot
  be moved below itself.  The entry that a rename creates comes last in the listing of
  its directory; the one it replaces keeps its place.
\<close>

definition is_prefix :: "path \<Rightarrow> path \<Rightarrow> bool" where
  "is_prefix p q \<longleftrightarrow> take (length p) q = p"

definition rename :: "world \<Rightarrow> path \<Rightarrow> path \<Rightarrow> outcome" where
  "rename w src dst =
     (let moved = (\<lambda>n. Done (w\<lparr>root := set_entry dst n (remove_entry src (root w)),
                                  calls := calls w @ [Rename src dst]\<rparr>)) in
      case resolve (root w) src of
        Inl e \<Rightarrow> Raised e w
      | Inr n \<Rightarrow>
          if src = [] then Raised Busy w
          else if dst = src then Done w
          else (case resolve (root w) dst of
                  Inr m \<Rightarrow>
                    (case n of
                       Directory es \<Rightarrow>
                         (case m of
                            Directory es' \<Rightarrow>
                              if is_prefix src dst then Raised InvalidArgument w
                              else if es' \<noteq> [] then Raised DirectoryNotEmpty w
                              else moved n
                          | _ \<Rightarrow> Raised NotADirectoryError w)
                     | _ \<Rightarrow>
                         (case m of
                            Directory es' \<Rightarrow> Raised IsADirectoryError w
                          | _ \<Rightarrow> moved n))
                | Inl e \<Rightarrow>
                    if e = FileNotFoundError \<and> dst \<noteq> [] \<and> is_dir w (parent dst) then
                      (case n of
                         Directory es \<Rightarrow>
                           if is_prefix src dst then Raised InvalidArgument w else moved n
                       | _ \<Rightarrow> moved n)
                    else Raised e w))"

text \<open>
  \<^verbatim>\<open>os.scandir\<close>, read to the end: the entries of a directory, each with its kind.  The
  pattern \<^verbatim>\<open>*.jpg\<close> matches the names that end in \<^verbatim>\<open>.jpg\<close>, the name \<^verbatim>\<open>.jpg\<close> among them
  (the \<^verbatim>\<open>glob\<close> of pathlib does not set names with a leading dot apart).
\<close>

definition scandir :: "world \<Rightarrow> path \<Rightarrow> exn + (string \<times> node) list" where
  "scandir w p =
     (case resolve (root w) p of
        Inl e \<Rightarrow> Inl e
      | Inr (Directory es) \<Rightarrow> Inr es
      | Inr _ \<Rightarrow> Inl NotADirectoryError)"

definition fnmatch_jpg :: "string \<Rightarrow> bool" where
  "fnmatch_jpg n \<longleftrightarrow> 4 \<le> length n \<and> drop (length n - 4) n = ''.jpg''"

fun is_directory :: "node \<Rightarrow> bool" where
  "is_directory (Directory es) = True"
| "is_directory n = False"

section \<open>Pathlib notebook: the cells\<close>

subsection \<open>Writing and reading a file\<close>


subsection \<open>Creating the numbered directories\<close>

text \<open>
  \<^verbatim>\<open>
  for char in string.ascii_lowercase:
      for i in range(10):
          new = base_dir / 'new' / char / str(i)
          new.mkdir(parents=True)
          (new / 'file.txt').write_text('PyRVA is Awesome!')
  \<close>
  \<open>make_numbered\<close> is the inner loop and \<open>make_lettered\<close> the outer one; iterating over
  a string yields its characters as strings of length one.
\<close>

definition ascii_lowercase :: string where
  "ascii_lowercase = ''abcdefghijklmnopqrstuvwxyz''"

fun str :: "nat \<Rightarrow> string" where
  "str n = (if n < 10 then [''0123456789'' ! n] else str (n div 10) @ [''0123456789'' ! (n mod 10)])"

declare str.simps [simp del]

fun make_numbered :: "world \<Rightarrow> path \<Rightarrow> string \<Rightarrow> nat list \<Rightarrow> outcome" where
  "make_numbered w base_dir char [] = Done w"
| "make_numbered w base_dir char (i # rest) =
     (let new = base_dir @ [''new'', char, str i] in
      case mkdir w new True False of
        Raised e w' \<Rightarrow> Raised e w'
      | Done w' \<Rightarrow>
          (case write_text w' (new @ [''file.txt'']) ''PyRVA is Awesome!'' of
             Raised e w'' \<Rightarrow> Raised e w''
           | Done w'' \<Rightarrow> make_numbered w'' base_dir char rest))"

fun make_lettered :: "world \<Rightarrow> path \<Rightarrow> string \<Rightarrow> outcome" where
  "make_lettered w base_dir [] = Done w"
| "make_lettered w base_dir (c # letters) =
     (case make_numbered w base_dir [c] [0..<10] of
        Raised e w' \<Rightarrow> Raised e w'
      | Done w' \<Rightarrow> make_lettered w' base_dir letters)"

definition make_new :: "world \<Rightarrow> path \<Rightarrow> outcome" where
  "make_new w base_dir = make_lettered w base_dir ascii_lowercase"

subsection \<open>Renaming the images\<close>

text \<open>
  \<^verbatim>\<open>
  for img in Path('books').rglob('*.jpg'):
      new_name = img.with_name(mapping[img.stem] + img.suffix)
      img.rename(new_name)
  \<close>
  \<open>mapping\<close> is the dictionary that the two lines before the loop build from the JSON
  file; subscripting it with a key that it does not have raises \<^verbatim>\<open>KeyError\<close>.
  \<open>rename_image\<close> is the body of the loop.
\<close>

definition rename_image :: "(string \<rightharpoonup> string) \<Rightarrow> world \<Rightarrow> path \<Rightarrow> outcome" where
  "rename_image mapping w img =
     (case mapping (stem img) of
        None \<Rightarrow> Raised KeyError w
      | Some v \<Rightarrow>
          (case with_name img (v @ suffix img) of
             Inl e \<Rightarrow> Raised e w
           | Inr new_name \<Rightarrow> rename w img new_name))"

text \<open>
  \<^verbatim>\<open>rglob\<close> is a generator, and the body of the loop runs between two of its steps: the
  generator sees the renames made so far.  At a directory it reads the listing once and
  yields, one by one, the paths of the entries that match (\<open>rename_images\<close> runs the body
  on them, in this order); it then reads the listing again and goes into each entry that
  is a directory, in the order of that second listing (\<open>rglob_rename_dirs\<close>).  It yields no
  path twice; where no directory lists a name twice no path comes twice, and the model
  keeps no record of the paths yielded.

  The recursion goes as deep as the tree; \<open>fuel\<close> bounds the depth, and \<open>None\<close> says that
  it did not suffice.  \<^verbatim>\<open>rglob\<close> yields nothing when the path it is called on is not a
  directory.  \<open>books\<close> is the path of \<^verbatim>\<open>Path('books')\<close> from the root of the model.
\<close>

fun rename_images :: "(string \<rightharpoonup> string) \<Rightarrow> world \<Rightarrow> path list \<Rightarrow> outcome" where
  "rename_images mapping w [] = Done w"
| "rename_images mapping w (img # imgs) =
     (case rename_image mapping w img of
        Raised e w' \<Rightarrow> Raised e w'
      | Done w' \<Rightarrow> rename_images mapping w' imgs)"

fun rglob_rename :: "nat \<Rightarrow> (string \<rightharpoonup> string) \<Rightarrow> world \<Rightarrow> path \<Rightarrow> outcome option"
  and rglob_rename_dirs :: "nat \<Rightarrow> (string \<rightharpoonup> string) \<Rightarrow> world \<Rightarrow> path list \<Rightarrow> outcome option" where
  "rglob_rename 0 mapping w dir = None"
| "rglob_rename (Suc fuel) mapping w dir =
     (case scandir w dir of
        Inl e \<Rightarrow> Some (Raised e w)
      | Inr entries \<Rightarrow>
          (case rename_images mapping w
                  (map (\<lambda>(k, c). dir @ [k]) (filter (\<lambda>(k, c). fnmatch_jpg k) entries)) of
             Raised e w' \<Rightarrow> Some (Raised e w')
           | Done w' \<Rightarrow>
               (case scandir w' dir of
                  Inl e \<Rightarrow> Some (Raised e w')
                | Inr entries' \<Rightarrow>
                    rglob_rename_dirs fuel mapping w'
                      (map (\<lambda>(k, c). dir @ [k]) (filter (\<lambda>(k, c). is_directory c) entries')))))"
| "rglob_rename_dirs fuel mapping w [] = Some (Done w)"
| "rglob_rename_dirs fuel mapping w (d # ds) =
     (case rglob_rename fuel mapping w d of
        None \<Rightarrow> None
      | Some (Raised e w') \<Rightarrow> Some (Raised e w')
      | Some (Done w') \<Rightarrow> rglob_rename_dirs fuel mapping w' ds)"

definition rename_cell :: "nat \<Rightarrow> (string \<rightharpoonup> string) \<Rightarrow> world \<Rightarrow> path \<Rightarrow> outcome option" where
  "rename_cell fuel mapping w books =
     (if is_dir w books then rglob_rename fuel mapping w books else Some (Done w))"

subsection \<open>Deleting a directory tree\<close>

text \<open>
  The height of a tree is what the recursion of \<^verbatim>\<open>rmdir\<close> below descends along: each
  recursive call is on an entry of the directory listed, and deleting entries makes no
  subtree higher.
\<close>

fun maxs :: "nat list \<Rightarrow> nat" where
  "maxs [] = 0"
| "maxs (x # xs) = max x (maxs xs)"

fun height :: "node \<Rightarrow> nat" where
  "height (Directory es) = Suc (maxs (map (\<lambda>(k, c). height c) es))"
| "height n = 0"

definition height_at :: "world \<Rightarrow> path \<Rightarrow> nat" where
  "height_at w p = (case resolve (root w) p of Inr n \<Rightarrow> height n | Inl e \<Rightarrow> 0)"

definition shrinks :: "world \<Rightarrow> world \<Rightarrow> bool" where
  "shrinks w w' \<longleftrightarrow> (\<forall>p. height_at w' p \<le> height_at w p)"

definition below :: "node \<Rightarrow> node \<Rightarrow> bool" where
  "below n' n \<longleftrightarrow>
     (\<forall>p m'. resolve n' p = Inr m' \<longrightarrow> (\<exists>m. resolve n p = Inr m \<and> height m' \<le> height m))"

text \<open>
  The measure of the termination proof: the height below the argument first, the length
  of the listing that is left second.
\<close>

definition rmdir_measure :: "world \<times> path + world \<times> path list \<Rightarrow> nat \<times> nat" where
  "rmdir_measure x =
     (case x of
        Inl (w, top') \<Rightarrow> (2 * height_at w top' + 1, 0)
      | Inr (w, files) \<Rightarrow> (2 * maxs (map (height_at w) files) + 2, length files))"

text \<open>
  \<^verbatim>\<open>
  def rmdir(top: Path):
      for file in top.iterdir():
          if file.is_file():
              file.unlink()
          elif file.is_dir():
              rmdir(file)
      top.rmdir()
  \<close>
  \<open>rmdir_loop\<close> is the \<^verbatim>\<open>for\<close> loop over the listing.  The parameter is written \<open>top'\<close>,
  since \<open>top\<close> is a constant of the logic.
\<close>

function rmdir :: "world \<Rightarrow> path \<Rightarrow> outcome"
  and rmdir_loop :: "world \<Rightarrow> path list \<Rightarrow> outcome" where
  "rmdir w top' =
     (case iterdir w top' of
        Inl e \<Rightarrow> Raised e w
      | Inr files \<Rightarrow>
          (case rmdir_loop w files of
             Raised e w' \<Rightarrow> Raised e w'
           | Done w' \<Rightarrow> Path_rmdir w' top'))"
| "rmdir_loop w [] = Done w"
| "rmdir_loop w (file # files) =
     (if is_file w file then
        (case unlink w file of
           Raised e w' \<Rightarrow> Raised e w'
         | Done w' \<Rightarrow> rmdir_loop w' files)
      else if is_dir w file then
        (case rmdir w file of
           Raised e w' \<Rightarrow> Raised e w'
         | Done w' \<Rightarrow> rmdir_loop w' files)
      else rmdir_loop w files)"
  by pat_completeness auto

text \<open>
  Termination.  The recursive call after a deletion is on the state that the deletion
  returns, so the proof needs that a completed call makes no subtree higher, for every
  argument on which the function is defined.
\<close>

lemma maxs_ge: "x \<in> set xs \<Longrightarrow> x \<le> maxs xs"
  by (induction xs) auto

lemma maxs_le: "(\<And>x. x \<in> set xs \<Longrightarrow> x \<le> b) \<Longrightarrow> maxs xs \<le> b"
  by (induction xs) auto

lemma height_child: "map_of es k = Some c \<Longrightarrow> height c < height (Directory es)"
proof -
  assume "map_of es k = Some c"
  then have "(k, c) \<in> set es" by (rule map_of_SomeD)
  then have "height c \<in> set (map (\<lambda>(k, c). height c) es)" by force
  then show ?thesis by (simp add: maxs_ge less_Suc_eq_le)
qed

lemma map_of_filter_key:
  "map_of (filter (\<lambda>(k, c). k \<noteq> x) es) y = (if y = x then None else map_of es y)"
  by (induction es) auto

lemma map_of_map_key:
  "map_of (map (\<lambda>(k, c). if k = x then (k, g c) else (k, c)) es) y =
     (if y = x then map_option g (map_of es x) else map_of es y)"
  by (induction es) auto

lemma below_refl: "below n n"
  by (simp add: below_def)

lemma below_height: "below n' n \<Longrightarrow> height n' \<le> height n"
  unfolding below_def by (drule spec[of _ "[]"]) simp

lemma below_filter:
  "below (Directory (filter (\<lambda>(k, c). k \<noteq> x) es)) (Directory es)"
  unfolding below_def
proof (intro allI impI)
  fix p m'
  assume r: "resolve (Directory (filter (\<lambda>(k, c). k \<noteq> x) es)) p = Inr m'"
  show "\<exists>m. resolve (Directory es) p = Inr m \<and> height m' \<le> height m"
  proof (cases p)
    case Nil
    have "maxs (map (\<lambda>(k, c). height c) (filter (\<lambda>(k, c). k \<noteq> x) es))
      \<le> maxs (map (\<lambda>(k, c). height c) es)"
      by (rule maxs_le) (auto intro!: maxs_ge)
    with Nil r show ?thesis by auto
  next
    case (Cons y p')
    with r show ?thesis
      by (auto simp: map_of_filter_key split: if_splits option.splits)
  qed
qed

lemma below_map:
  assumes "\<And>c. below (g c) c"
  shows "below (Directory (map (\<lambda>(k, c). if k = x then (k, g c) else (k, c)) es)) (Directory es)"
  unfolding below_def
proof (intro allI impI)
  fix p m'
  assume r: "resolve (Directory (map (\<lambda>(k, c). if k = x then (k, g c) else (k, c)) es)) p = Inr m'"
  show "\<exists>m. resolve (Directory es) p = Inr m \<and> height m' \<le> height m"
  proof (cases p)
    case Nil
    have "maxs (map (\<lambda>(k, c). height c) (map (\<lambda>(k, c). if k = x then (k, g c) else (k, c)) es))
      \<le> maxs (map (\<lambda>(k, c). height c) es)"
    proof (rule maxs_le)
      fix h assume "h \<in> set (map (\<lambda>(k, c). height c) (map (\<lambda>(k, c). if k = x then (k, g c) else (k, c)) es))"
      then obtain k c where kc: "(k, c) \<in> set es" and h: "h = (if k = x then height (g c) else height c)"
        by (auto split: if_splits)
      have "h \<le> height c" using h below_height[OF assms[of c]] by simp
      moreover have "height c \<le> maxs (map (\<lambda>(k, c). height c) es)"
        using kc by (intro maxs_ge) force
      ultimately show "h \<le> maxs (map (\<lambda>(k, c). height c) es)" by simp
    qed
    with Nil r show ?thesis by auto
  next
    case (Cons y p')
    show ?thesis
    proof (cases "y = x")
      case False
      with Cons r show ?thesis by (auto simp: map_of_map_key split: option.splits)
    next
      case True
      with Cons r obtain c where c: "map_of es x = Some c" and rc: "resolve (g c) p' = Inr m'"
        by (auto simp: map_of_map_key split: option.splits)
      from assms[of c] rc obtain m where "resolve c p' = Inr m" "height m' \<le> height m"
        unfolding below_def by blast
      with Cons True c show ?thesis by auto
    qed
  qed
qed

lemma below_modify_filter: "below (modify (filter (\<lambda>(k, c). k \<noteq> x)) q n) n"
proof (induction q arbitrary: n)
  case Nil
  show ?case by (cases n) (simp_all add: below_refl below_filter)
next
  case (Cons y q)
  show ?case
  proof (cases n)
    case (Directory es)
    then show ?thesis using below_map[of "modify (filter (\<lambda>(k, c). k \<noteq> x)) q" y es] Cons.IH
      by simp
  qed (simp_all add: below_refl)
qed

lemma shrinks_refl: "shrinks w w"
  by (simp add: shrinks_def)

lemma shrinks_trans: "shrinks w w' \<Longrightarrow> shrinks w' w'' \<Longrightarrow> shrinks w w''"
  unfolding shrinks_def by (meson le_trans)

lemma shrinks_remove_entry:
  "root w' = remove_entry p (root w) \<Longrightarrow> shrinks w w'"
proof -
  assume r: "root w' = remove_entry p (root w)"
  have b: "below (root w') (root w)"
    unfolding r remove_entry_def by (rule below_modify_filter)
  show ?thesis
    unfolding shrinks_def height_at_def
  proof
    fix q
    show "(case resolve (root w') q of Inl e \<Rightarrow> 0 | Inr n \<Rightarrow> height n)
      \<le> (case resolve (root w) q of Inl e \<Rightarrow> 0 | Inr n \<Rightarrow> height n)"
    proof (cases "resolve (root w') q")
      case (Inr m')
      with b obtain m where "resolve (root w) q = Inr m" "height m' \<le> height m"
        unfolding below_def by blast
      with Inr show ?thesis by simp
    qed simp
  qed
qed

lemma unlink_shrinks: "unlink w p = Done w' \<Longrightarrow> shrinks w w'"
  by (auto simp: unlink_def split: sum.splits node.splits intro!: shrinks_remove_entry)

lemma Path_rmdir_shrinks: "Path_rmdir w p = Done w' \<Longrightarrow> shrinks w w'"
  by (auto simp: Path_rmdir_def split: sum.splits node.splits if_splits intro!: shrinks_remove_entry)

lemma rmdir_shrinks_dom:
  "rmdir_rmdir_loop_dom (Inl (w, top')) \<Longrightarrow> (\<And>w'. rmdir w top' = Done w' \<Longrightarrow> shrinks w w')"
  "rmdir_rmdir_loop_dom (Inr (w, files)) \<Longrightarrow> (\<And>w'. rmdir_loop w files = Done w' \<Longrightarrow> shrinks w w')"
proof (induction w top' and w files rule: rmdir_rmdir_loop.pinduct)
  case (1 w top')
  from "1.prems" "1.hyps" obtain files w1 where f: "iterdir w top' = Inr files"
    and l: "rmdir_loop w files = Done w1" and r: "Path_rmdir w1 top' = Done w'"
    by (auto simp: rmdir.psimps split: sum.splits outcome.splits)
  from "1.IH"[OF f l] Path_rmdir_shrinks[OF r] show ?case by (rule shrinks_trans)
next
  case (2 w)
  then show ?case by (simp add: rmdir_loop.psimps shrinks_refl)
next
  case (3 w f fs)
  show ?case
  proof (cases "is_file w f")
    case True
    with "3.prems" "3.hyps" obtain w1 where u: "unlink w f = Done w1"
      and l: "rmdir_loop w1 fs = Done w'"
      by (auto simp: rmdir_loop.psimps split: outcome.splits)
    from unlink_shrinks[OF u] "3.IH"(1)[OF True u l] show ?thesis by (rule shrinks_trans)
  next
    case nf: False
    show ?thesis
    proof (cases "is_dir w f")
      case True
      with nf "3.prems" "3.hyps" obtain w1 where u: "rmdir w f = Done w1"
        and l: "rmdir_loop w1 fs = Done w'"
        by (auto simp: rmdir_loop.psimps split: outcome.splits)
      from "3.IH"(2)[OF nf True u] "3.IH"(3)[OF nf True u l] show ?thesis by (rule shrinks_trans)
    next
      case False
      with nf "3.prems" "3.hyps" have "rmdir_loop w fs = Done w'"
        by (auto simp: rmdir_loop.psimps)
      from "3.IH"(4)[OF nf False this] show ?thesis .
    qed
  qed
qed

lemma iterdir_height:
  assumes "iterdir w top' = Inr files"
  shows "maxs (map (height_at w) files) < height_at w top'"
proof -
  from assms obtain es where es: "resolve (root w) top' = Inr (Directory es)"
    and files: "files = map (\<lambda>(k, c). top' @ [k]) es"
    by (auto simp: iterdir_def split: sum.splits node.splits)
  have res: "resolve n (p @ [k]) = (case resolve n p of Inl e \<Rightarrow> Inl e | Inr m \<Rightarrow> resolve m [k])" for n p k
    by (induction p arbitrary: n) (auto split: node.splits option.splits)
  have "height_at w f < height (Directory es)" if "f \<in> set files" for f
  proof -
    from that files obtain k c where "(k, c) \<in> set es" and f: "f = top' @ [k]" by auto
    then obtain c' where "map_of es k = Some c'"
      by (metis weak_map_of_SomeI)
    then show ?thesis
      using height_child[of es k c'] es by (simp add: f height_at_def res)
  qed
  then have "maxs (map (height_at w) files) \<le> height (Directory es) - 1"
    by (intro maxs_le) (auto simp: less_Suc_eq_le)
  then show ?thesis using es by (simp add: height_at_def)
qed

lemma shrinks_maxs: "shrinks w w' \<Longrightarrow> maxs (map (height_at w') files) \<le> maxs (map (height_at w) files)"
  by (induction files) (auto simp: shrinks_def max.coboundedI1 max.coboundedI2)

lemma rmdir_recursion_well_founded: "All rmdir_rmdir_loop_dom"
proof (rule "rmdir_rmdir_loop.termination"[of "inv_image (less_than <*lex*> less_than) rmdir_measure"])
  show "wf (inv_image (less_than <*lex*> less_than) rmdir_measure)"
    by (intro wf_inv_image wf_lex_prod wf_less_than)
next
  fix w top' fs
  assume "iterdir w top' = Inr fs"
  from iterdir_height[OF this]
  show "(Inr (w, fs), Inl (w, top')) \<in> inv_image (less_than <*lex*> less_than) rmdir_measure"
    by (simp add: rmdir_measure_def)
next
  fix w f fs w'
  assume "unlink w f = Done w'"
  from shrinks_maxs[OF unlink_shrinks[OF this], of fs]
  show "(Inr (w', fs), Inr (w, f # fs)) \<in> inv_image (less_than <*lex*> less_than) rmdir_measure"
    by (auto simp: rmdir_measure_def)
next
  fix w f fs
  show "(Inl (w, f), Inr (w, f # fs)) \<in> inv_image (less_than <*lex*> less_than) rmdir_measure"
    by (auto simp: rmdir_measure_def)
next
  fix w f fs w'
  assume "rmdir w f = Done w'" "rmdir_rmdir_loop_dom (Inl (w, f))"
  then have "shrinks w w'"
    using rmdir_shrinks_dom(1)[of w f w'] by simp
  from shrinks_maxs[OF this, of fs]
  show "(Inr (w', fs), Inr (w, f # fs)) \<in> inv_image (less_than <*lex*> less_than) rmdir_measure"
    by (auto simp: rmdir_measure_def)
next
  fix w f fs
  show "(Inr (w, fs), Inr (w, f # fs)) \<in> inv_image (less_than <*lex*> less_than) rmdir_measure"
    by (auto simp: rmdir_measure_def)
qed

termination rmdir
  by (rule rmdir_recursion_well_founded)

section \<open>What the properties are stated with\<close>

text \<open>
  \<open>put p n r\<close> is the tree \<open>r\<close> with the subtree at \<open>p\<close> replaced by \<open>n\<close>.
\<close>

fun put :: "path \<Rightarrow> node \<Rightarrow> node \<Rightarrow> node" where
  "put [] n r = n"
| "put (x # p) n r =
     (case r of
        Directory es \<Rightarrow> Directory (map (\<lambda>(k, c). if k = x then (k, put p n c) else (k, c)) es)
      | _ \<Rightarrow> r)"

text \<open>
  A filesystem lists no name twice in a directory.  The type \<open>node\<close> does not say so,
  hence the predicate, which the properties of the cells assume of the state they start
  from.
\<close>

fun distinct_names :: "node \<Rightarrow> bool" where
  "distinct_names (Directory es) \<longleftrightarrow>
     distinct (map fst es) \<and> list_all (\<lambda>(k, c). distinct_names c) es"
| "distinct_names n \<longleftrightarrow> True"







text \<open>
  The tree that the directory-creation cell builds below \<^verbatim>\<open>base_dir / 'new'\<close>: a directory
  for each letter, holding a directory for each number, holding \<^verbatim>\<open>file.txt\<close>; and the
  paths of the numbered directories.  \<open>wrap ks n\<close> is \<open>n\<close> inside the nested directories
  \<open>ks\<close>.
\<close>

definition file_dir :: node where
  "file_dir = Directory [(''file.txt'', RegularFile ''PyRVA is Awesome!'')]"

definition numbered :: "nat list \<Rightarrow> node" where
  "numbered ds =
     Directory (map (\<lambda>i. (str i, Directory [(''file.txt'', RegularFile ''PyRVA is Awesome!'')])) ds)"

definition lettered :: "string \<Rightarrow> node" where
  "lettered cs = Directory (map (\<lambda>c. ([c], numbered [0..<10])) cs)"

definition numbered_dirs :: "path \<Rightarrow> path list" where
  "numbered_dirs base_dir =
     concat (map (\<lambda>c. map (\<lambda>i. base_dir @ [''new'', [c], str i]) [0..<10]) ascii_lowercase)"

fun wrap :: "string list \<Rightarrow> node \<Rightarrow> node" where
  "wrap [] n = n"
| "wrap (k # ks) n = Directory [(k, wrap ks n)]"

subsection \<open>What the renaming loop is to do\<close>

text \<open>
  The name that the loop gives to an entry \<open>k\<close>, and the tree it is to leave: in every
  directory the entries that do not match \<^verbatim>\<open>*.jpg\<close> stay, and those that match follow
  under their new names, in the order in which they were renamed; what the entries hold
  is renamed in the same way and otherwise unchanged.
\<close>

definition new_name :: "(string \<rightharpoonup> string) \<Rightarrow> string \<Rightarrow> string" where
  "new_name mapping k = (case mapping (stem [k]) of Some v \<Rightarrow> v @ suffix [k] | None \<Rightarrow> k)"

definition after_renames :: "(string \<rightharpoonup> string) \<Rightarrow> (string \<times> node) list \<Rightarrow> (string \<times> node) list" where
  "after_renames mapping es =
     filter (\<lambda>(k, c). \<not> fnmatch_jpg k) es @
     map (\<lambda>(k, c). (new_name mapping k, c)) (filter (\<lambda>(k, c). fnmatch_jpg k) es)"

fun renamed :: "(string \<rightharpoonup> string) \<Rightarrow> node \<Rightarrow> node" where
  "renamed mapping (Directory es) =
     (let es' = map (\<lambda>(k, c). (k, renamed mapping c)) es in
      Directory (filter (\<lambda>(k, c). \<not> fnmatch_jpg k) es' @
                 map (\<lambda>(k, c). (new_name mapping k, c)) (filter (\<lambda>(k, c). fnmatch_jpg k) es')))"
| "renamed mapping n = n"

text \<open>
  An entry is \<open>well_mapped\<close> when its name is more than the bare \<^verbatim>\<open>.jpg\<close> and the
  dictionary has, for its stem, a value that is not empty and holds no \<^verbatim>\<open>/\<close>.  A tree is
  \<open>renamable\<close> when, in each of its directories, the entries that match \<^verbatim>\<open>*.jpg\<close> are well
  mapped, their new names differ from one another, and none of the new names is the name
  of an entry of that directory.
\<close>

definition well_mapped :: "(string \<rightharpoonup> string) \<Rightarrow> string \<Rightarrow> bool" where
  "well_mapped mapping k \<longleftrightarrow>
     k \<noteq> ''.jpg'' \<and>
     (case mapping (stem [k]) of Some v \<Rightarrow> v \<noteq> [] \<and> CHR ''/'' \<notin> set v | None \<Rightarrow> False)"

fun renamable :: "(string \<rightharpoonup> string) \<Rightarrow> node \<Rightarrow> bool" where
  "renamable mapping (Directory es) \<longleftrightarrow>
     (let imgs = filter fnmatch_jpg (map fst es) in
      list_all (well_mapped mapping) imgs \<and>
      distinct (map (new_name mapping) imgs) \<and>
      list_all (\<lambda>k. new_name mapping k \<notin> fst ` set es) imgs) \<and>
     list_all (\<lambda>(k, c). renamable mapping c) es"
| "renamable mapping n \<longleftrightarrow> True"

text \<open>
  A call changes the stem only when it renames a path to one with the same parent and the
  same suffix.  \<open>stems_only w w'\<close> says that the calls made from \<open>w\<close> to \<open>w'\<close> are all such.
\<close>

fun stem_only :: "syscall \<Rightarrow> bool" where
  "stem_only (Rename src dst) \<longleftrightarrow>
     parent dst = parent src \<and> suffix dst = suffix src \<and> stem dst \<noteq> []"
| "stem_only c \<longleftrightarrow> False"

definition stems_only :: "world \<Rightarrow> world \<Rightarrow> bool" where
  "stems_only w w' \<longleftrightarrow>
     take (length (calls w)) (calls w') = calls w \<and>
     list_all stem_only (drop (length (calls w)) (calls w'))"

text \<open>
  The number of entries below a directory whose names match \<^verbatim>\<open>*.jpg\<close>: the length of
  \<^verbatim>\<open>list(p.rglob('*.jpg'))\<close> on a tree that nothing changes meanwhile.
\<close>

fun count_jpg :: "node \<Rightarrow> nat" where
  "count_jpg (Directory es) =
     sum_list (map (\<lambda>(k, c). (if fnmatch_jpg k then 1 else 0) + count_jpg c) es)"
| "count_jpg n = 0"

definition rglob_count :: "world \<Rightarrow> path \<Rightarrow> nat" where
  "rglob_count w p = (case resolve (root w) p of Inr n \<Rightarrow> count_jpg n | Inl e \<Rightarrow> 0)"

subsection \<open>Concrete filesystems, for the instances below\<close>



definition home_world :: world where
  "home_world = \<lparr>root = Directory [(''home'', Directory [(''repo'', Directory [])])], calls = []\<rparr>"

definition books_world :: world where
  "books_world =
     \<lparr>root = Directory
        [(''books'', Directory
           [(''books.json'', RegularFile ''[]''),
            (''a.jpg'', RegularFile ''A''),
            (''b.jpg'', RegularFile ''B''),
            (''more'', Directory [(''a.jpg'', RegularFile ''C'')])])],
      calls = []\<rparr>"

definition book_titles :: "string \<rightharpoonup> string" where
  "book_titles = [''a'' \<mapsto> ''alpha'', ''b'' \<mapsto> ''beta'']"

definition shelf_world :: world where
  "shelf_world =
     \<lparr>root = Directory
        [(''books'', Directory [(''a.jpg'', RegularFile ''A''), (''b.jpg'', RegularFile ''B'')])],
      calls = []\<rparr>"

definition clashing_titles :: "string \<rightharpoonup> string" where
  "clashing_titles = [''a'' \<mapsto> ''b'', ''b'' \<mapsto> ''c'']"

section \<open>Properties of the JSON API pagination loop\<close>

lemma count_api_pages_from_step:
  "k \<noteq> 0 \<Longrightarrow> count_api_pages_from api k acc =
     (case page_flag api k of
        Inl e \<Rightarrow> Some (Inl e, acc @ [k])
      | Inr b \<Rightarrow> if b then count_api_pages_from api (k + 1) (acc @ [k]) else Some (Inr k, acc @ [k]))"
  by (subst count_api_pages_from.simps) (simp add: page_flag_def Let_def split: sum.splits)

lemma collect_api_quotes_from_step:
  "k \<noteq> 0 \<Longrightarrow> collect_api_quotes_from api k acc qs =
     (case page_quotes api k of
        Inl e \<Rightarrow> Some (Inl e, acc @ [k], qs)
      | Inr added \<Rightarrow>
          (case page_flag api k of
             Inl e \<Rightarrow> Some (Inl e, acc @ [k], qs @ added)
           | Inr b \<Rightarrow> if b then collect_api_quotes_from api (k + 1) (acc @ [k]) (qs @ added)
                      else Some (Inr k, acc @ [k], qs @ added)))"
  by (subst collect_api_quotes_from.simps)
     (simp add: page_flag_def page_quotes_def Let_def split: sum.splits)

lemma count_api_pages_from_reaches:
  assumes "1 \<le> k" "k \<le> n" "ends api n r"
    and "\<forall>j. k \<le> j \<and> j < n \<longrightarrow> page_flag api j = Inr True"
  shows "count_api_pages_from api k acc = Some (r, acc @ [k..n])"
  using assms
proof (induction "nat (n - k)" arbitrary: k acc)
  case 0
  then have "k = n" by simp
  with 0 show ?case
    by (subst count_api_pages_from_step) (auto simp: ends_def split: sum.splits)
next
  case (Suc d)
  then have lt: "k < n" by linarith
  with Suc.prems have hn: "page_flag api k = Inr True" by simp
  have step: "count_api_pages_from api k acc = count_api_pages_from api (k + 1) (acc @ [k])"
    using Suc.prems(1) hn by (subst count_api_pages_from_step) simp_all
  have "count_api_pages_from api (k + 1) (acc @ [k]) = Some (r, (acc @ [k]) @ [k + 1..n])"
    using Suc.hyps(2) Suc.prems lt by (intro Suc.hyps(1)) auto
  moreover have "[k..n] = k # [k + 1..n]"
    using lt by (simp add: upto_rec1)
  ultimately show ?case using step by simp
qed

lemma run_to_step:
  assumes "page_flag api k = Inr True" "run_to api (k + 1) n r"
  shows "run_to api k n r"
proof -
  have "page_flag api j = Inr True" if "k \<le> j" "j < n" for j
    using that assms by (cases "j = k") (auto simp: run_to_def)
  thus ?thesis using assms(2) by (auto simp: run_to_def)
qed

lemma run_to_here: "ends api k r \<Longrightarrow> run_to api k k r"
  by (auto simp: run_to_def)

lemma count_api_pages_from_sound_aux:
  "count_api_pages_from api k acc = Some res \<Longrightarrow>
   1 \<le> k \<longrightarrow> (\<exists>n. run_to api k n (fst res) \<and> snd res = acc @ [k..n])"
proof (erule count_api_pages_from.raw_induct[rotated 1])
  fix rec and api :: "('a::zero) api" and k acc res
  assume ih: "\<And>api k acc res. rec api k acc = Some res \<Longrightarrow>
      1 \<le> k \<longrightarrow> (\<exists>n. run_to api k n (fst res) \<and> snd res = acc @ [k..n])"
    and body: "(if k \<noteq> 0 then
        (let requested' = acc @ [k] in
         case api k of
           Inl e \<Rightarrow> Some (Inl e, requested')
         | Inr data \<Rightarrow>
             (case getitem data (ustr ''has_next'') of
                Inl e \<Rightarrow> Some (Inl e, requested')
              | Inr flag \<Rightarrow>
                  if truthy flag then rec api (k + 1) requested'
                  else Some (Inr k, requested')))
      else Some (Inr k, acc)) = Some res"
  show "1 \<le> k \<longrightarrow> (\<exists>n. run_to api k n (fst res) \<and> snd res = acc @ [k..n])"
  proof
    assume k1: "1 \<le> k"
    have body': "(case page_flag api k of
        Inl e \<Rightarrow> Some (Inl e, acc @ [k])
      | Inr b \<Rightarrow> if b then rec api (k + 1) (acc @ [k]) else Some (Inr k, acc @ [k])) = Some res"
      using body k1 by (auto simp: page_flag_def Let_def split: sum.splits if_splits)
    show "\<exists>n. run_to api k n (fst res) \<and> snd res = acc @ [k..n]"
    proof (cases "page_flag api k = Inr True")
      case False
      hence "ends api k (fst res) \<and> snd res = acc @ [k]"
        using body' by (auto simp: ends_def split: sum.splits if_splits)
      thus ?thesis using run_to_here[of api k "fst res"] by (intro exI[of _ k]) simp
    next
      case True
      with body' have "rec api (k + 1) (acc @ [k]) = Some res" by simp
      from ih[OF this] k1 obtain n where n: "run_to api (k + 1) n (fst res)"
        "snd res = (acc @ [k]) @ [k + 1..n]" by auto
      have "k + 1 \<le> n" using n(1) by (simp add: run_to_def)
      hence "[k..n] = k # [k + 1..n]" by (simp add: upto_rec1)
      thus ?thesis using run_to_step[OF True n(1)] n(2) by (intro exI[of _ n]) simp
    qed
  qed
qed

lemma count_api_pages_iff:
  "count_api_pages api = Some (r, requested) \<longleftrightarrow>
     (\<exists>n. run_to api 1 n r \<and> requested = [1..n])"
proof
  assume "count_api_pages api = Some (r, requested)"
  then show "\<exists>n. run_to api 1 n r \<and> requested = [1..n]"
    unfolding count_api_pages_def by (auto dest!: count_api_pages_from_sound_aux)
next
  assume "\<exists>n. run_to api 1 n r \<and> requested = [1..n]"
  then obtain n where n: "run_to api 1 n r" "requested = [1..n]" by blast
  then show "count_api_pages api = Some (r, requested)"
    unfolding count_api_pages_def
    using count_api_pages_from_reaches[of 1 n api r "[]"] by (simp add: run_to_def)
qed

lemma first_page_that_ends:
  fixes api :: "('n::zero) api"
  assumes "1 \<le> k" "page_flag api k \<noteq> Inr True"
  shows "\<exists>n. 1 \<le> n \<and> page_flag api n \<noteq> Inr True \<and>
     (\<forall>j. 1 \<le> j \<and> j < n \<longrightarrow> page_flag api j = Inr True)"
proof -
  define m where "m = (LEAST d. page_flag api (1 + int d) \<noteq> Inr True)"
  have ex: "page_flag api (1 + int (nat (k - 1))) \<noteq> Inr True"
    using assms by simp
  have least: "page_flag api (1 + int m) \<noteq> Inr True"
    unfolding m_def using ex by (rule LeastI)
  have below: "page_flag api (1 + int d) = Inr True" if "d < m" for d
    using that not_less_Least unfolding m_def by blast
  have "page_flag api j = Inr True" if "1 \<le> j" "j < 1 + int m" for j
    using below[of "nat (j - 1)"] that by simp
  with least show ?thesis
    by (intro exI[of _ "1 + int m"]) simp
qed

lemma ends_ex: "page_flag api n \<noteq> Inr True \<longleftrightarrow> (\<exists>r. ends api n r)"
proof (cases "page_flag api n")
  case (Inl e)
  thus ?thesis by (auto simp: ends_def)
next
  case (Inr b)
  thus ?thesis by (cases b) (auto simp: ends_def)
qed

lemma collecting_to_step:
  assumes "page_flag api k = Inr True" "page_quotes api k = Inr added" "collecting_to api (k + 1) n r"
  shows "collecting_to api k n r"
proof -
  have "page_flag api j = Inr True \<and> (\<exists>added. page_quotes api j = Inr added)"
    if "k \<le> j" "j < n" for j
    using that assms by (cases "j = k") (auto simp: collecting_to_def)
  thus ?thesis using assms(3) by (auto simp: collecting_to_def)
qed

lemma collecting_to_here: "collecting_ends api k r \<Longrightarrow> collecting_to api k k r"
  by (auto simp: collecting_to_def)

lemma collect_api_quotes_from_reaches:
  assumes "1 \<le> k" "collecting_to api k n r"
  shows "collect_api_quotes_from api k acc qs =
    Some (r, acc @ [k..n], qs @ concat (map (quotes_of api) [k..n]))"
  using assms
proof (induction "nat (n - k)" arbitrary: k acc qs)
  case 0
  then have kn: "k = n" by (simp add: collecting_to_def)
  have "collecting_ends api k r" using 0 kn by (simp add: collecting_to_def)
  then show ?case using 0(2) kn
    by (subst collect_api_quotes_from_step)
       (auto simp: collecting_ends_def ends_def quotes_of_def split: sum.splits)
next
  case (Suc d)
  then have lt: "k < n" by linarith
  with Suc.prems obtain added where hn: "page_flag api k = Inr True"
    and pq: "page_quotes api k = Inr added"
    by (auto simp: collecting_to_def)
  have step: "collect_api_quotes_from api k acc qs =
      collect_api_quotes_from api (k + 1) (acc @ [k]) (qs @ added)"
    using Suc.prems(1) hn pq by (subst collect_api_quotes_from_step) simp_all
  have next_run: "collecting_to api (k + 1) n r"
    using Suc.prems(2) lt by (auto simp: collecting_to_def)
  have "collect_api_quotes_from api (k + 1) (acc @ [k]) (qs @ added) =
      Some (r, (acc @ [k]) @ [k + 1..n], (qs @ added) @ concat (map (quotes_of api) [k + 1..n]))"
    using Suc.hyps(2) Suc.prems(1) lt next_run by (intro Suc.hyps(1)) auto
  moreover have "[k..n] = k # [k + 1..n]"
    using lt by (simp add: upto_rec1)
  moreover have "quotes_of api k = added" using pq by (simp add: quotes_of_def)
  ultimately show ?case using step by simp
qed

lemma collect_api_quotes_from_sound_aux:
  "collect_api_quotes_from api k acc qs = Some res \<Longrightarrow>
   1 \<le> k \<longrightarrow> (\<exists>n. collecting_to api k n (fst res) \<and> fst (snd res) = acc @ [k..n] \<and>
     snd (snd res) = qs @ concat (map (quotes_of api) [k..n]))"
proof (erule collect_api_quotes_from.raw_induct[rotated 1])
  fix rec and api :: "('a::zero) api" and k acc qs res
  assume ih: "\<And>api k acc qs res. rec api k acc qs = Some res \<Longrightarrow>
      1 \<le> k \<longrightarrow> (\<exists>n. collecting_to api k n (fst res) \<and> fst (snd res) = acc @ [k..n] \<and>
        snd (snd res) = qs @ concat (map (quotes_of api) [k..n]))"
    and body: "(if k \<noteq> 0 then
        (let requested' = acc @ [k] in
         case api k of
           Inl e \<Rightarrow> Some (Inl e, requested', qs)
         | Inr data \<Rightarrow>
             (case getitem data (ustr ''quotes'') of
                Inl e \<Rightarrow> Some (Inl e, requested', qs)
              | Inr v \<Rightarrow>
                  (case iter v of
                     Inl e \<Rightarrow> Some (Inl e, requested', qs)
                   | Inr added \<Rightarrow>
                       (let quotes' = qs @ added in
                        case getitem data (ustr ''has_next'') of
                          Inl e \<Rightarrow> Some (Inl e, requested', quotes')
                        | Inr flag \<Rightarrow>
                            if truthy flag
                            then rec api (k + 1) requested' quotes'
                            else Some (Inr k, requested', quotes')))))
      else Some (Inr k, acc, qs)) = Some res"
  show "1 \<le> k \<longrightarrow> (\<exists>n. collecting_to api k n (fst res) \<and> fst (snd res) = acc @ [k..n] \<and>
        snd (snd res) = qs @ concat (map (quotes_of api) [k..n]))"
  proof
    assume k1: "1 \<le> k"
    have body': "(case page_quotes api k of
        Inl e \<Rightarrow> Some (Inl e, acc @ [k], qs)
      | Inr added \<Rightarrow>
          (case page_flag api k of
             Inl e \<Rightarrow> Some (Inl e, acc @ [k], qs @ added)
           | Inr b \<Rightarrow> if b then rec api (k + 1) (acc @ [k]) (qs @ added)
                      else Some (Inr k, acc @ [k], qs @ added))) = Some res"
      using body k1
      by (auto simp: page_flag_def page_quotes_def Let_def split: sum.splits if_splits)
    show "\<exists>n. collecting_to api k n (fst res) \<and> fst (snd res) = acc @ [k..n] \<and>
        snd (snd res) = qs @ concat (map (quotes_of api) [k..n])"
    proof (cases "page_flag api k = Inr True \<and> (\<exists>added. page_quotes api k = Inr added)")
      case False
      hence "collecting_ends api k (fst res) \<and> fst (snd res) = acc @ [k] \<and>
          snd (snd res) = qs @ quotes_of api k"
        using body'
        by (auto simp: collecting_ends_def ends_def quotes_of_def split: sum.splits if_splits)
      thus ?thesis using collecting_to_here[of api k "fst res"] by (intro exI[of _ k]) simp
    next
      case True
      then obtain added where hn: "page_flag api k = Inr True" and pq: "page_quotes api k = Inr added"
        by blast
      with body' have "rec api (k + 1) (acc @ [k]) (qs @ added) = Some res" by simp
      from ih[OF this] k1 obtain n where n: "collecting_to api (k + 1) n (fst res)"
        "fst (snd res) = (acc @ [k]) @ [k + 1..n]"
        "snd (snd res) = (qs @ added) @ concat (map (quotes_of api) [k + 1..n])" by auto
      have "k + 1 \<le> n" using n(1) by (simp add: collecting_to_def)
      hence "[k..n] = k # [k + 1..n]" by (simp add: upto_rec1)
      moreover have "quotes_of api k = added" using pq by (simp add: quotes_of_def)
      ultimately show ?thesis using collecting_to_step[OF hn pq n(1)] n(2,3)
        by (intro exI[of _ n]) simp
    qed
  qed
qed

lemma collect_api_quotes_iff:
  "collect_api_quotes api = Some (r, requested, qs) \<longleftrightarrow>
     (\<exists>n. collecting_to api 1 n r \<and> requested = [1..n] \<and>
        qs = concat (map (quotes_of api) [1..n]))"
proof
  assume "collect_api_quotes api = Some (r, requested, qs)"
  then show "\<exists>n. collecting_to api 1 n r \<and> requested = [1..n] \<and>
        qs = concat (map (quotes_of api) [1..n])"
    unfolding collect_api_quotes_def by (auto dest!: collect_api_quotes_from_sound_aux)
next
  assume "\<exists>n. collecting_to api 1 n r \<and> requested = [1..n] \<and>
        qs = concat (map (quotes_of api) [1..n])"
  then obtain n where n: "collecting_to api 1 n r" "requested = [1..n]"
    "qs = concat (map (quotes_of api) [1..n])" by blast
  then show "collect_api_quotes api = Some (r, requested, qs)"
    unfolding collect_api_quotes_def
    using collect_api_quotes_from_reaches[of 1 api n r "[]" "[]"] by simp
qed

text \<open>
  C3 as stated says that the loop terminates exactly when some page reports \<^verbatim>\<open>has_next\<close>
  false, and that it then reports the number of that page.  Here every page is the empty
  object: no page reports \<^verbatim>\<open>has_next\<close> at all, and both loops end at page \<open>1\<close> with the
  \<^verbatim>\<open>KeyError\<close> of the lookup, reporting nothing.
\<close>

theorem api_loop_keyerror_counterexample:
  "count_api_pages empty_objects = Some (Inl KeyError, [1]) \<and>
   collect_api_quotes empty_objects = Some (Inl KeyError, [1], []) \<and>
   (\<forall>k. empty_objects k = Inr (JObject []))"
  by (simp add: count_api_pages_def count_api_pages_from.simps collect_api_quotes_def
      collect_api_quotes_from.simps empty_objects_def)

text \<open>
  C3, as the code has it.  The loop requests the pages \<open>1, 2, ..., n\<close> in this order, where
  page \<open>n\<close> is the first one on which \<^verbatim>\<open>data['has_next']\<close> is not a true value.  When it
  is a false value (\<^verbatim>\<open>false\<close>, \<^verbatim>\<open>null\<close>, zero, or empty) the loop returns with
  \<^verbatim>\<open>next_page = n\<close>, the number that the cell prints; when the request or the lookup
  raises (\<^verbatim>\<open>ValueError\<close> for a body that is not JSON, \<^verbatim>\<open>TypeError\<close> for a document that is
  not an object, \<^verbatim>\<open>KeyError\<close> for an object without the key) the cell ends with that
  exception.  The loop ends, in one way or the other, exactly when there is such a page.
  The quote-collection loop does the same, except that it also ends at a page whose
  \<^verbatim>\<open>data['quotes']\<close> raises or cannot be iterated; \<^verbatim>\<open>quotes\<close> then holds the quotes of the
  pages before.
\<close>

theorem api_loop_ends_at_first_page_not_flagged:
  "(count_api_pages api = Some (r, requested) \<longleftrightarrow>
      (\<exists>n. 1 \<le> n \<and> requested = [1..n] \<and>
           (\<forall>j. 1 \<le> j \<and> j < n \<longrightarrow> page_flag api j = Inr True) \<and> ends api n r)) \<and>
   ((\<exists>res. count_api_pages api = Some res) \<longleftrightarrow> (\<exists>k. 1 \<le> k \<and> page_flag api k \<noteq> Inr True)) \<and>
   (collect_api_quotes api = Some (r, requested, qs) \<longleftrightarrow>
      (\<exists>n. 1 \<le> n \<and> requested = [1..n] \<and>
           (\<forall>j. 1 \<le> j \<and> j < n \<longrightarrow>
              page_flag api j = Inr True \<and> (\<exists>added. page_quotes api j = Inr added)) \<and>
           collecting_ends api n r \<and> qs = concat (map (quotes_of api) [1..n])))"
proof (intro conjI)
  show "count_api_pages api = Some (r, requested) \<longleftrightarrow>
      (\<exists>n. 1 \<le> n \<and> requested = [1..n] \<and>
           (\<forall>j. 1 \<le> j \<and> j < n \<longrightarrow> page_flag api j = Inr True) \<and> ends api n r)"
    unfolding count_api_pages_iff run_to_def by blast
  show "(\<exists>res. count_api_pages api = Some res) \<longleftrightarrow> (\<exists>k. 1 \<le> k \<and> page_flag api k \<noteq> Inr True)"
  proof
    assume "\<exists>res. count_api_pages api = Some res"
    then obtain r requested where "count_api_pages api = Some (r, requested)" by auto
    then obtain n where "run_to api 1 n r" using count_api_pages_iff[of api r requested] by blast
    then have "1 \<le> n \<and> page_flag api n \<noteq> Inr True"
      using ends_ex[of api n] by (auto simp: run_to_def)
    then show "\<exists>k. 1 \<le> k \<and> page_flag api k \<noteq> Inr True" by blast
  next
    assume "\<exists>k. 1 \<le> k \<and> page_flag api k \<noteq> Inr True"
    then obtain n where n: "1 \<le> n" "page_flag api n \<noteq> Inr True"
      "\<forall>j. 1 \<le> j \<and> j < n \<longrightarrow> page_flag api j = Inr True"
      using first_page_that_ends by blast
    then obtain r where "ends api n r" using ends_ex[of api n] by blast
    with n have "run_to api 1 n r" by (simp add: run_to_def)
    then have "count_api_pages api = Some (r, [1..n])"
      using count_api_pages_iff[of api r "[1..n]"] by blast
    then show "\<exists>res. count_api_pages api = Some res" by blast
  qed
  show "collect_api_quotes api = Some (r, requested, qs) \<longleftrightarrow>
      (\<exists>n. 1 \<le> n \<and> requested = [1..n] \<and>
           (\<forall>j. 1 \<le> j \<and> j < n \<longrightarrow>
              page_flag api j = Inr True \<and> (\<exists>added. page_quotes api j = Inr added)) \<and>
           collecting_ends api n r \<and> qs = concat (map (quotes_of api) [1..n]))"
    unfolding collect_api_quotes_iff collecting_to_def by blast
qed

theorem api_loop_ends_at_first_page_not_flagged_witness:
  "count_api_pages three_pages = Some (Inr 3, [1, 2, 3]) \<and>
   (\<exists>res. count_api_pages three_pages = Some res) \<and>
   collect_api_quotes three_pages = Some (Inr 3, [1, 2, 3], [JNumber 1, JNumber 2, JNumber 3])"
proof -
  have flags: "page_flag three_pages j = Inr (j < 3)" for j
    by (simp add: page_flag_def three_pages_def ustr_def)
  have quotes: "page_quotes three_pages j = Inr [JNumber j]" for j
    by (simp add: page_quotes_def three_pages_def ustr_def)
  have below: "\<forall>j. 1 \<le> j \<and> j < 3 \<longrightarrow>
      page_flag three_pages j = Inr True \<and> (\<exists>added. page_quotes three_pages j = Inr added)"
    by (simp add: flags quotes)
  have last: "ends three_pages 3 (Inr 3)" "collecting_ends three_pages 3 (Inr 3)"
    by (simp_all add: ends_def collecting_ends_def flags quotes)
  have upto: "[1..3] = [1, 2, 3::int]"
    by (simp add: upto_rec1)
  have qs: "concat (map (quotes_of three_pages) [1, 2, 3]) = [JNumber 1, JNumber 2, JNumber 3]"
    by (simp add: quotes_of_def quotes)
  have ex: "\<exists>k. 1 \<le> k \<and> page_flag three_pages k \<noteq> Inr True"
    by (intro exI[of _ 3]) (simp add: flags)
  have run: "\<exists>n. 1 \<le> n \<and> [1, 2, 3] = [1..n] \<and>
           (\<forall>j. 1 \<le> j \<and> j < n \<longrightarrow>
              page_flag three_pages j = Inr True \<and> (\<exists>added. page_quotes three_pages j = Inr added)) \<and>
           ends three_pages n (Inr 3) \<and> collecting_ends three_pages n (Inr 3) \<and>
           [JNumber 1, JNumber 2, JNumber 3] = concat (map (quotes_of three_pages) [1..n])"
    using below last upto qs by (intro exI[of _ 3]) simp
  show ?thesis
    using api_loop_ends_at_first_page_not_flagged[of three_pages "Inr 3" "[1, 2, 3]"
        "[JNumber 1, JNumber 2, JNumber 3]"] ex run
    by blast
qed

section \<open>Properties of the HTML pagination loop\<close>

lemma count_pages_from_empty: "count_pages_from site [] acc = Some (Inr [], acc)"
  by (subst count_pages_from.simps) simp

lemma count_pages_from_reaches:
  assumes "follows site (u # ps)" "stops site (last (u # ps)) r" "u \<noteq> []"
  shows "count_pages_from site u acc = Some (r, acc @ u # ps)"
  using assms
proof (induction ps arbitrary: u acc)
  case Nil
  then show ?case
    by (subst count_pages_from.simps)
       (auto simp: stops_def Let_def count_pages_from_empty split: sum.splits if_splits)
next
  case (Cons p ps)
  then have nxt: "subscript (select_one_li_next_a (site u)) ''href'' = Inr p" and "p \<noteq> []"
    and "follows site (p # ps)" and "stops site (last (p # ps)) r"
    by auto
  from Cons.IH[OF this(3,4,2)] have "count_pages_from site p (acc @ [u]) = Some (r, (acc @ [u]) @ p # ps)" .
  then show ?case
    using nxt Cons.prems(3) by (subst count_pages_from.simps) (simp add: Let_def)
qed

lemma count_pages_from_sound_aux:
  "count_pages_from site u acc = Some r \<Longrightarrow>
   (if u = [] then r = (Inr [], acc)
    else \<exists>ps. snd r = acc @ u # ps \<and> follows site (u # ps) \<and>
      stops site (last (u # ps)) (fst r))"
proof (erule count_pages_from.raw_induct[rotated 1])
  fix rec and site :: "'a site" and u acc r
  assume ih: "\<And>site u acc r. rec site u acc = Some r \<Longrightarrow>
      (if u = [] then r = (Inr [], acc)
       else \<exists>ps. snd r = acc @ u # ps \<and> follows site (u # ps) \<and>
        stops site (last (u # ps)) (fst r))"
    and body: "(if u \<noteq> [] then
        (let soup = site u; fetched' = acc @ [u] in
         case subscript (select_one_li_next_a soup) ''href'' of
           Inr href \<Rightarrow> rec site href fetched'
         | Inl e \<Rightarrow> if e = TypeError then Some (Inr u, fetched') else Some (Inl e, fetched'))
      else Some (Inr u, acc)) = Some r"
  show "if u = [] then r = (Inr [], acc)
       else \<exists>ps. snd r = acc @ u # ps \<and> follows site (u # ps) \<and>
        stops site (last (u # ps)) (fst r)"
  proof (cases "u = []")
    case True
    with body show ?thesis by auto
  next
    case u: False
    have "\<exists>ps. snd r = acc @ u # ps \<and> follows site (u # ps) \<and> stops site (last (u # ps)) (fst r)"
    proof (cases "subscript (select_one_li_next_a (site u)) ''href''")
      case (Inl e)
      with body u have "snd r = acc @ [u]" "stops site u (fst r)"
        by (auto simp: Let_def stops_def split: if_splits)
      then show ?thesis by (intro exI[of _ "[]"]) simp
    next
      case (Inr href)
      with body u have call: "rec site href (acc @ [u]) = Some r" by (simp add: Let_def)
      show ?thesis
      proof (cases "href = []")
        case True
        with ih[OF call] have "r = (Inr [], acc @ [u])" by simp
        then show ?thesis using Inr True by (intro exI[of _ "[]"]) (simp add: stops_def)
      next
        case False
        with ih[OF call] obtain ps where "snd r = (acc @ [u]) @ href # ps" "follows site (href # ps)"
          "stops site (last (href # ps)) (fst r)" by auto
        then show ?thesis using Inr False by (intro exI[of _ "href # ps"]) simp
      qed
    qed
    with u show ?thesis by simp
  qed
qed

lemma count_pages_from_iff:
  assumes "u \<noteq> []"
  shows "count_pages_from site u acc = Some (r, fetched) \<longleftrightarrow>
    (\<exists>ps. fetched = acc @ u # ps \<and> follows site (u # ps) \<and> stops site (last (u # ps)) r)"
proof
  assume "count_pages_from site u acc = Some (r, fetched)"
  from count_pages_from_sound_aux[OF this] assms
  show "\<exists>ps. fetched = acc @ u # ps \<and> follows site (u # ps) \<and> stops site (last (u # ps)) r"
    by simp
next
  assume "\<exists>ps. fetched = acc @ u # ps \<and> follows site (u # ps) \<and> stops site (last (u # ps)) r"
  then obtain ps where "fetched = acc @ u # ps" "follows site (u # ps)" "stops site (last (u # ps)) r"
    by blast
  then show "count_pages_from site u acc = Some (r, fetched)"
    using count_pages_from_reaches[OF _ _ assms] by simp
qed

lemma stopping_chain_unique:
  assumes "follows site (u # ps)" "stops site (last (u # ps)) r"
    and "follows site (u # qs)" "stops site (last (u # qs)) r'"
  shows "ps = qs \<and> r = r'"
  using assms
proof (induction ps arbitrary: u qs)
  case Nil
  then show ?case
    by (cases qs) (auto simp: stops_def split: sum.splits if_splits)
next
  case (Cons p ps)
  show ?case
  proof (cases qs)
    case Nil
    with Cons.prems show ?thesis by (auto simp: stops_def split: sum.splits if_splits)
  next
    case (Cons q qs')
    with Cons.prems have "q = p" by auto
    with Cons Cons.prems Cons.IH[of p qs'] show ?thesis by auto
  qed
qed

lemma follows_drop: "follows site ps \<Longrightarrow> follows site (drop i ps)"
proof (induction i arbitrary: ps)
  case 0
  then show ?case by simp
next
  case (Suc i)
  show ?case
  proof (cases ps)
    case Nil
    then show ?thesis by simp
  next
    case (Cons p ps')
    with Suc.prems have "follows site ps'" by (cases ps') auto
    with Suc.IH Cons show ?thesis by simp
  qed
qed

lemma stopping_chain_distinct:
  assumes "follows site ps" "ps \<noteq> []" "stops site (last ps) r"
  shows "distinct ps"
proof (rule ccontr)
  assume "\<not> distinct ps"
  then obtain i j where "i < length ps" "j < length ps" "i \<noteq> j" "ps ! i = ps ! j"
    unfolding distinct_conv_nth by blast
  then obtain i j where ij: "i < j" "j < length ps" "ps ! i = ps ! j"
    by (cases "i < j") (auto simp: not_less le_less)
  then have il: "i < length ps" by simp
  have di: "drop i ps = ps ! i # drop (Suc i) ps"
    using il by (simp add: Cons_nth_drop_Suc)
  have dj: "drop j ps = ps ! i # drop (Suc j) ps"
    using ij by (simp add: Cons_nth_drop_Suc)
  have fi: "follows site (ps ! i # drop (Suc i) ps)"
    using follows_drop[OF assms(1), of i] di by simp
  have fj: "follows site (ps ! i # drop (Suc j) ps)"
    using follows_drop[OF assms(1), of j] dj by simp
  have li: "last (ps ! i # drop (Suc i) ps) = last ps"
    using last_drop[of i ps] il di by simp
  have lj: "last (ps ! i # drop (Suc j) ps) = last ps"
    using last_drop[of j ps] ij dj by simp
  have "drop (Suc i) ps = drop (Suc j) ps"
    using stopping_chain_unique[OF fi _ fj, of r r] assms(3) li lj by simp
  then have "length (drop (Suc i) ps) = length (drop (Suc j) ps)" by simp
  with ij show False by simp
qed

lemma collect_quotes_from_empty:
  "collect_quotes_from site [] acc qs = Some (Inr [], acc, qs)"
  by (subst collect_quotes_from.simps) simp

lemma collect_quotes_from_reaches:
  assumes "follows site (u # ps)" "stops site (last (u # ps)) r" "u \<noteq> []"
  shows "collect_quotes_from site u acc qs =
    Some (r, acc @ u # ps, qs @ concat (map (\<lambda>p. select_div_quote (site p)) (u # ps)))"
  using assms
proof (induction ps arbitrary: u acc qs)
  case Nil
  then show ?case
    by (subst collect_quotes_from.simps)
       (auto simp: stops_def Let_def collect_quotes_from_empty split: sum.splits if_splits)
next
  case (Cons p ps)
  then have nxt: "subscript (select_one_li_next_a (site u)) ''href'' = Inr p" and "p \<noteq> []"
    and "follows site (p # ps)" and "stops site (last (p # ps)) r"
    by auto
  from Cons.IH[OF this(3,4,2)]
  have "collect_quotes_from site p (acc @ [u]) (qs @ select_div_quote (site u)) =
    Some (r, (acc @ [u]) @ p # ps,
      (qs @ select_div_quote (site u)) @ concat (map (\<lambda>p. select_div_quote (site p)) (p # ps)))" .
  then show ?case
    using nxt Cons.prems(3) by (subst collect_quotes_from.simps) (simp add: Let_def)
qed

lemma collect_quotes_from_sound_aux:
  "collect_quotes_from site u acc qs = Some r \<Longrightarrow>
   (if u = [] then r = (Inr [], acc, qs)
    else \<exists>ps. fst (snd r) = acc @ u # ps \<and> follows site (u # ps) \<and>
      stops site (last (u # ps)) (fst r) \<and>
      snd (snd r) = qs @ concat (map (\<lambda>p. select_div_quote (site p)) (u # ps)))"
proof (erule collect_quotes_from.raw_induct[rotated 1])
  fix rec and site :: "'a site" and u acc qs r
  assume ih: "\<And>site u acc qs r. rec site u acc qs = Some r \<Longrightarrow>
      (if u = [] then r = (Inr [], acc, qs)
       else \<exists>ps. fst (snd r) = acc @ u # ps \<and> follows site (u # ps) \<and>
        stops site (last (u # ps)) (fst r) \<and>
        snd (snd r) = qs @ concat (map (\<lambda>p. select_div_quote (site p)) (u # ps)))"
    and body: "(if u \<noteq> [] then
        (let soup = site u; fetched' = acc @ [u]; quotes' = qs @ select_div_quote soup in
         case subscript (select_one_li_next_a soup) ''href'' of
           Inr href \<Rightarrow> rec site href fetched' quotes'
         | Inl e \<Rightarrow> if e = TypeError then Some (Inr u, fetched', quotes')
                    else Some (Inl e, fetched', quotes'))
      else Some (Inr u, acc, qs)) = Some r"
  show "if u = [] then r = (Inr [], acc, qs)
       else \<exists>ps. fst (snd r) = acc @ u # ps \<and> follows site (u # ps) \<and>
        stops site (last (u # ps)) (fst r) \<and>
        snd (snd r) = qs @ concat (map (\<lambda>p. select_div_quote (site p)) (u # ps))"
  proof (cases "u = []")
    case True
    with body show ?thesis by auto
  next
    case u: False
    have "\<exists>ps. fst (snd r) = acc @ u # ps \<and> follows site (u # ps) \<and>
        stops site (last (u # ps)) (fst r) \<and>
        snd (snd r) = qs @ concat (map (\<lambda>p. select_div_quote (site p)) (u # ps))"
    proof (cases "subscript (select_one_li_next_a (site u)) ''href''")
      case (Inl e)
      with body u have "fst (snd r) = acc @ [u]" "stops site u (fst r)"
        "snd (snd r) = qs @ select_div_quote (site u)"
        by (auto simp: Let_def stops_def split: if_splits)
      then show ?thesis by (intro exI[of _ "[]"]) simp
    next
      case (Inr href)
      with body u have call: "rec site href (acc @ [u]) (qs @ select_div_quote (site u)) = Some r"
        by (simp add: Let_def)
      show ?thesis
      proof (cases "href = []")
        case True
        with ih[OF call] have "r = (Inr [], acc @ [u], qs @ select_div_quote (site u))" by simp
        then show ?thesis using Inr True by (intro exI[of _ "[]"]) (simp add: stops_def)
      next
        case False
        with ih[OF call] obtain ps where "fst (snd r) = (acc @ [u]) @ href # ps"
          "follows site (href # ps)" "stops site (last (href # ps)) (fst r)"
          "snd (snd r) = (qs @ select_div_quote (site u)) @
             concat (map (\<lambda>p. select_div_quote (site p)) (href # ps))"
          by auto
        then show ?thesis using Inr False by (intro exI[of _ "href # ps"]) simp
      qed
    qed
    with u show ?thesis by simp
  qed
qed

lemma collect_quotes_iff:
  "collect_quotes site = Some (r, fetched, qs) \<longleftrightarrow>
     count_pages site = Some (r, fetched) \<and>
     qs = concat (map (\<lambda>p. select_div_quote (site p)) fetched)"
proof
  assume "collect_quotes site = Some (r, fetched, qs)"
  then obtain ps where ps: "fetched = ''/page/1/'' # ps" "follows site (''/page/1/'' # ps)"
      "stops site (last (''/page/1/'' # ps)) r"
      "qs = concat (map (\<lambda>p. select_div_quote (site p)) (''/page/1/'' # ps))"
    unfolding collect_quotes_def by (auto dest!: collect_quotes_from_sound_aux)
  then have "count_pages site = Some (r, fetched)"
    unfolding count_pages_def using count_pages_from_reaches[of site "''/page/1/''" ps r "[]"]
    by simp
  with ps show "count_pages site = Some (r, fetched) \<and>
     qs = concat (map (\<lambda>p. select_div_quote (site p)) fetched)" by simp
next
  assume a: "count_pages site = Some (r, fetched) \<and>
     qs = concat (map (\<lambda>p. select_div_quote (site p)) fetched)"
  then obtain ps where ps: "fetched = ''/page/1/'' # ps" "follows site (''/page/1/'' # ps)"
      "stops site (last (''/page/1/'' # ps)) r"
    unfolding count_pages_def by (auto dest!: count_pages_from_sound_aux)
  then show "collect_quotes site = Some (r, fetched, qs)"
    unfolding collect_quotes_def
    using collect_quotes_from_reaches[of site "''/page/1/''" ps r "[]" "[]"] a by simp
qed

lemma count_pages_iff:
  "count_pages site = Some (r, fetched) \<longleftrightarrow>
     fetched \<noteq> [] \<and> hd fetched = ''/page/1/'' \<and> follows site fetched \<and>
     stops site (last fetched) r"
proof -
  have "count_pages site = Some (r, fetched) \<longleftrightarrow>
    (\<exists>ps. fetched = [] @ ''/page/1/'' # ps \<and> follows site (''/page/1/'' # ps) \<and>
       stops site (last (''/page/1/'' # ps)) r)"
    unfolding count_pages_def by (rule count_pages_from_iff) simp
  also have "\<dots> \<longleftrightarrow> fetched \<noteq> [] \<and> hd fetched = ''/page/1/'' \<and> follows site fetched \<and>
     stops site (last fetched) r"
    by (cases fetched) auto
  finally show ?thesis .
qed

text \<open>
  C2, as the code has it.  Starting from \<^verbatim>\<open>'/page/1/'\<close>, the loop fetches a chain of
  pages in which each link after the first is the \<^verbatim>\<open>href\<close> of the \<^verbatim>\<open>li.next a\<close> element
  of the page before it.  It leaves at the first page that has no such element (the
  \<^verbatim>\<open>TypeError\<close> is caught), or whose element has an empty \<^verbatim>\<open>href\<close> (the condition of the
  \<^verbatim>\<open>while\<close>), or whose element has no \<^verbatim>\<open>href\<close> (the \<^verbatim>\<open>KeyError\<close> is not caught).  When
  the loop returns, every page of the chain has been fetched exactly once, in order, and
  the quote-collection loop fetches the same pages and returns their quotes.
\<close>

theorem count_pages_follows_next_links:
  "(count_pages site = Some (r, fetched) \<longleftrightarrow>
      fetched \<noteq> [] \<and> hd fetched = ''/page/1/'' \<and> follows site fetched \<and>
      stops site (last fetched) r) \<and>
   (count_pages site = Some (r, fetched) \<longrightarrow> distinct fetched) \<and>
   (collect_quotes site = Some (r, fetched, qs) \<longleftrightarrow>
      count_pages site = Some (r, fetched) \<and>
      qs = concat (map (\<lambda>p. select_div_quote (site p)) fetched))"
  using count_pages_iff[of site r fetched] collect_quotes_iff[of site r fetched qs]
    stopping_chain_distinct[of site fetched r]
  by blast

theorem count_pages_follows_next_links_witness:
  "count_pages two_page_site = Some (Inr ''/page/2/'', [''/page/1/'', ''/page/2/'']) \<and>
   distinct [''/page/1/'', ''/page/2/''] \<and>
   collect_quotes two_page_site = Some (Inr ''/page/2/'', [''/page/1/'', ''/page/2/''], [1, 2, 3])"
proof -
  have "follows two_page_site [''/page/1/'', ''/page/2/'']"
    by (simp add: two_page_site_def subscript_def)
  moreover have "stops two_page_site ''/page/2/'' (Inr ''/page/2/'')"
    by (simp add: two_page_site_def subscript_def stops_def)
  moreover have "concat (map (\<lambda>p. select_div_quote (two_page_site p)) [''/page/1/'', ''/page/2/''])
    = [1, 2, 3]"
    by (simp add: two_page_site_def)
  ultimately show ?thesis
    using count_pages_follows_next_links[of two_page_site "Inr ''/page/2/''"
        "[''/page/1/'', ''/page/2/'']" "[1, 2, 3]"]
    by simp
qed

text \<open>
  C2 as stated says that the loop leaves exactly at a page without a next link.  Here it
  leaves at the first page, which has one, with an empty \<^verbatim>\<open>href\<close>.
\<close>

theorem count_pages_exit_counterexample:
  "count_pages empty_href_site = Some (Inr '''', [''/page/1/'']) \<and>
   select_one_li_next_a (empty_href_site ''/page/1/'') = Some [''href'' \<mapsto> '''']"
  by (simp add: count_pages_def count_pages_from.simps empty_href_site_def subscript_def)

text \<open>A next link without \<^verbatim>\<open>href\<close> ends the cell with the \<^verbatim>\<open>KeyError\<close>.\<close>

lemma count_pages_key_error:
  "count_pages no_href_site = Some (Inl KeyError, [''/page/1/''])"
  by (simp add: count_pages_def count_pages_from.simps no_href_site_def subscript_def)

subsection \<open>The handler of the HTML loops\<close>












section \<open>Paths and trees\<close>

lemma resolve_append:
  "resolve n (p @ q) = (case resolve n p of Inl e \<Rightarrow> Inl e | Inr m \<Rightarrow> resolve m q)"
  by (induction p arbitrary: n) (auto split: node.splits option.splits)

lemma map_of_distinct_entry:
  "distinct (map fst es) \<Longrightarrow> (k, c) \<in> set es \<Longrightarrow> map_of es k = Some c"
  by simp

lemma distinct_names_entry:
  "distinct_names (Directory es) \<Longrightarrow> (k, c) \<in> set es \<Longrightarrow> distinct_names c"
  by (auto simp: list_all_iff)

lemma distinct_names_child:
  "distinct_names (Directory es) \<Longrightarrow> map_of es k = Some c \<Longrightarrow> distinct_names c"
  by (blast intro: distinct_names_entry dest: map_of_SomeD)

lemma distinct_names_resolve:
  "resolve r p = Inr m \<Longrightarrow> distinct_names r \<Longrightarrow> distinct_names m"
proof (induction p arbitrary: r)
  case Nil
  then show ?case by simp
next
  case (Cons x p)
  from Cons.prems obtain es c where r: "r = Directory es" and c: "map_of es x = Some c"
    and rc: "resolve c p = Inr m"
    by (cases r) (auto split: option.splits)
  from distinct_names_child[OF _ c] Cons.prems(2) r have "distinct_names c" by blast
  from Cons.IH[OF rc this] show ?case .
qed

lemma map_entry_cong:
  assumes "distinct (map fst es)" "map_of es x = Some c" "g c = h c"
  shows "map (\<lambda>(k, c). if k = x then (k, g c) else (k, c)) es
       = map (\<lambda>(k, c). if k = x then (k, h c) else (k, c)) es"
proof (rule map_cong[OF refl])
  fix e assume e: "e \<in> set es"
  obtain k c' where kc: "e = (k, c')" by (cases e)
  show "(case e of (k, c) \<Rightarrow> if k = x then (k, g c) else (k, c))
      = (case e of (k, c) \<Rightarrow> if k = x then (k, h c) else (k, c))"
  proof (cases "k = x")
    case True
    with e kc assms(1) have "map_of es x = Some c'" by simp
    with assms(2) have "c' = c" by simp
    with kc True assms(3) show ?thesis by simp
  next
    case False
    with kc show ?thesis by simp
  qed
qed

lemma put_append:
  "resolve r p = Inr m \<Longrightarrow> distinct_names r \<Longrightarrow> put (p @ q) n r = put p (put q n m) r"
proof (induction p arbitrary: r)
  case Nil
  then show ?case by simp
next
  case (Cons x p)
  from Cons.prems obtain es c where r: "r = Directory es" and c: "map_of es x = Some c"
    and rc: "resolve c p = Inr m"
    by (cases r) (auto split: option.splits)
  from Cons.prems(2) r distinct_names_child[OF _ c]
  have dc: "distinct_names c" and d: "distinct (map fst es)"
    by auto
  from Cons.IH[OF rc dc] have "put (p @ q) n c = put p (put q n m) c" .
  from map_entry_cong[of es x c "put (p @ q) n" "put p (put q n m)", OF d c this]
  show ?case unfolding r by (simp only: append_Cons put.simps node.case)
qed

lemma modify_put:
  "resolve r p = Inr m \<Longrightarrow> distinct_names r \<Longrightarrow> modify f p r = put p (modify f [] m) r"
proof (induction p arbitrary: r)
  case Nil
  then show ?case by simp
next
  case (Cons x p)
  from Cons.prems obtain es c where r: "r = Directory es" and c: "map_of es x = Some c"
    and rc: "resolve c p = Inr m"
    by (cases r) (auto split: option.splits)
  from Cons.prems(2) r distinct_names_child[OF _ c]
  have dc: "distinct_names c" and d: "distinct (map fst es)"
    by auto
  from Cons.IH[OF rc dc] have "modify f p c = put p (modify f [] m) c" .
  from map_entry_cong[of es x c "modify f p" "put p (modify f [] m)", OF d c this]
  show ?case unfolding r by (simp only: modify.simps put.simps node.case)
qed

lemma resolve_put:
  "resolve r p = Inr m \<Longrightarrow> resolve (put p n r) (p @ q) = resolve n q"
proof (induction p arbitrary: r)
  case Nil
  then show ?case by simp
next
  case (Cons x p)
  then show ?case
    by (cases r) (auto simp: map_of_map_key split: option.splits)
qed

lemma put_put: "put p n (put p m r) = put p n r"
proof (induction p arbitrary: r)
  case Nil
  then show ?case by simp
next
  case (Cons x p)
  show ?case
  proof (cases r)
    case (Directory es)
    have "map ((\<lambda>(k, c). if k = x then (k, put p n c) else (k, c)) \<circ>
               (\<lambda>(k, c). if k = x then (k, put p m c) else (k, c))) es
        = map (\<lambda>(k, c). if k = x then (k, put p n c) else (k, c)) es"
      by (rule map_cong[OF refl]) (auto simp: Cons.IH)
    with Directory show ?thesis by simp
  qed simp_all
qed

lemma distinct_names_put:
  "distinct_names r \<Longrightarrow> distinct_names n \<Longrightarrow> distinct_names (put p n r)"
proof (induction p arbitrary: r)
  case Nil
  then show ?case by simp
next
  case (Cons x p)
  show ?case
  proof (cases r)
    case (Directory es)
    have "map fst (map (\<lambda>(k, c). if k = x then (k, put p n c) else (k, c)) es) = map fst es"
      by (induction es) auto
    moreover have "list_all (\<lambda>(k, c). distinct_names c)
        (map (\<lambda>(k, c). if k = x then (k, put p n c) else (k, c)) es)"
      unfolding list_all_iff
    proof
      fix e assume "e \<in> set (map (\<lambda>(k, c). if k = x then (k, put p n c) else (k, c)) es)"
      then obtain a b where ab: "(a, b) \<in> set es"
        and e: "e = (if a = x then (a, put p n b) else (a, b))"
        by auto
      from ab Cons.prems(1) Directory have "distinct_names b"
        by (auto simp: list_all_iff)
      with e Cons.IH[OF this Cons.prems(2)] show "case e of (k, c) \<Rightarrow> distinct_names c"
        by (cases "a = x") simp_all
    qed
    moreover have "distinct (map fst es)"
      using Cons.prems(1) Directory by simp
    ultimately show ?thesis
      unfolding Directory by (simp only: put.simps node.case distinct_names.simps simp_thms)
  qed (use Cons.prems in simp_all)
qed

lemma remove_entry_put:
  assumes "resolve r p = Inr (Directory es)" "distinct_names r"
  shows "remove_entry (p @ [k]) r = put p (Directory (filter (\<lambda>(k', c). k' \<noteq> k) es)) r"
  using modify_put[OF assms, of "filter (\<lambda>(k', c). k' \<noteq> k)"]
  by (simp add: remove_entry_def parent_def name_def)


lemma map_other_names:
  "k \<notin> fst ` set es \<Longrightarrow> map (\<lambda>(k', c). if k' = k then (k', g c) else (k', c)) es = es"
  by (induction es) auto

lemma map_of_kept:
  "k \<notin> fst ` set kept \<Longrightarrow> map_of (kept @ (k, c) # es) k = Some c"
  by (induction kept) auto

lemma map_entry_id: "map (\<lambda>(k, c). if k = x then (k, c) else (k, c)) es = es"
  by (induction es) auto

lemma put_resolve_id:
  "resolve r p = Inr m \<Longrightarrow> distinct_names r \<Longrightarrow> put p m r = r"
proof (induction p arbitrary: r)
  case Nil
  then show ?case by simp
next
  case (Cons x p)
  from Cons.prems obtain es c where r: "r = Directory es" and c: "map_of es x = Some c"
    and rc: "resolve c p = Inr m"
    by (cases r) (auto split: option.splits)
  from Cons.prems(2) r distinct_names_child[OF _ c]
  have dc: "distinct_names c" and d: "distinct (map fst es)"
    by auto
  from Cons.IH[OF rc dc] have "put p m c = (\<lambda>c. c) c" by simp
  from map_entry_cong[of es x c "put p m" "\<lambda>c. c", OF d c this]
  show ?case unfolding r by (simp only: put.simps node.case map_entry_id)
qed





lemma resolve_child:
  assumes "resolve (root w) p = Inr (Directory (kept @ (k, c) # es))" "distinct_names (root w)"
  shows "resolve (root w) (p @ [k]) = Inr c"
proof -
  from distinct_names_resolve[OF assms] have "k \<notin> fst ` set kept" by auto
  then have "map_of (kept @ (k, c) # es) k = Some c" by (rule map_of_kept)
  then show ?thesis using assms(1) by (simp add: resolve_append del: map_of_append)
qed

lemma distinct_names_parts:
  assumes "distinct_names (Directory (kept @ (k, c) # es))"
  shows "distinct_names c" "distinct_names (Directory (kept @ es))"
    "distinct_names (Directory (kept @ (k, n) # es)) \<longleftrightarrow> distinct_names n"
    "k \<notin> fst ` set kept" "k \<notin> fst ` set es"
  using assms by auto


lemma put_child:
  assumes "resolve (root w) p = Inr (Directory (kept @ (k, c) # es))" "distinct_names (root w)"
  shows "put (p @ [k]) n (root w) = put p (Directory (kept @ (k, n) # es)) (root w)"
proof -
  from distinct_names_resolve[OF assms] have k: "k \<notin> fst ` set kept" "k \<notin> fst ` set es" by auto
  have "map (\<lambda>(k', c). if k' = k then (k', put [] n c) else (k', c)) kept = kept"
    "map (\<lambda>(k', c). if k' = k then (k', put [] n c) else (k', c)) es = es"
    using k by (simp_all add: map_other_names)
  then have "put [k] n (Directory (kept @ (k, c) # es)) = Directory (kept @ (k, n) # es)"
    by simp
  with put_append[OF assms, of "[k]" n] show ?thesis by simp
qed



lemma Path_rmdir_child_not_empty:
  assumes "resolve (root w) p = Inr (Directory (kept @ (k, Directory cs) # es))"
    "distinct_names (root w)" "cs \<noteq> []"
  shows "Path_rmdir w (p @ [k]) = Raised DirectoryNotEmpty w"
  using resolve_child[OF assms(1,2)] assms(3)
  by (simp add: Path_rmdir_def)


section \<open>The deletion loop, on the tree\<close>













section \<open>The order of the deletion\<close>





section \<open>Writing a text and reading it back\<close>










section \<open>Properties of the directory-creation cell\<close>

lemma put_under:
  assumes "resolve r q = Inr m0" "distinct_names r" "distinct_names m"
  shows "put (q @ p) n (put q m r) = put q (put p n m) r"
proof -
  have "resolve (put q m r) q = Inr m"
    using resolve_put[OF assms(1), of m "[]"] by simp
  moreover have "distinct_names (put q m r)"
    by (rule distinct_names_put[OF assms(2,3)])
  ultimately have "put (q @ p) n (put q m r) = put q (put p n m) (put q m r)"
    by (rule put_append)
  then show ?thesis by (simp add: put_put)
qed

lemma set_entry_new:
  assumes "resolve r q = Inr (Directory es)" "distinct_names r" "k \<notin> fst ` set es"
  shows "set_entry (q @ [k]) n r = put q (Directory (es @ [(k, n)])) r"
  using modify_put[OF assms(1,2)] assms(3)
  by (simp add: set_entry_def parent_def name_def)

lemma resolve_missing:
  assumes "resolve r q = Inr (Directory es)" "k \<notin> fst ` set es"
  shows "resolve r (q @ k # ks) = Inl FileNotFoundError"
proof -
  from assms(2) have "map_of es k = None" by (simp add: map_of_eq_None_iff)
  with assms(1) show ?thesis by (simp add: resolve_append)
qed

lemma os_mkdir_new:
  assumes "resolve (root w) q = Inr (Directory es)" "distinct_names (root w)" "k \<notin> fst ` set es"
  shows "os_mkdir w (q @ [k]) =
    Done (w\<lparr>root := put q (Directory (es @ [(k, Directory [])])) (root w),
            calls := calls w @ [Mkdir (q @ [k])]\<rparr>)"
  using resolve_missing[OF assms(1,3), of "[]"] assms(1) set_entry_new[OF assms]
  by (simp add: os_mkdir_def is_dir_def parent_def)

lemma write_text_new:
  assumes "resolve (root w) q = Inr (Directory es)" "distinct_names (root w)" "k \<notin> fst ` set es"
  shows "write_text w (q @ [k]) data =
    Done (w\<lparr>root := put q (Directory (es @ [(k, RegularFile data)])) (root w),
            calls := calls w @ [Write (q @ [k]) data]\<rparr>)"
  using resolve_missing[OF assms(1,3), of "[]"] assms(1) set_entry_new[OF assms]
  by (simp add: write_text_def is_dir_def parent_def)

lemma distinct_names_wrap: "distinct_names n \<Longrightarrow> distinct_names (wrap ks n)"
  by (induction ks) simp_all

lemma resolve_wrap: "resolve (wrap ks n) (ks @ p) = resolve n p"
  by (induction ks) simp_all

lemma put_wrap: "put ks m (wrap ks n) = wrap ks m"
  by (induction ks) simp_all

lemma wrap_snoc: "wrap (ks @ [k]) n = wrap ks (Directory [(k, n)])"
  by (induction ks) simp_all

lemma distinct_names_snoc:
  "distinct_names (Directory es) \<Longrightarrow> k \<notin> fst ` set es \<Longrightarrow> distinct_names n \<Longrightarrow>
   distinct_names (Directory (es @ [(k, n)]))"
  by auto

lemma mkdir_parents_new:
  assumes "distinct_names (root w)" "resolve (root w) q = Inr (Directory es)" "k \<notin> fst ` set es"
  shows "\<exists>w'. mkdir w (q @ k # ks) True ok = Done w' \<and>
    root w' = put q (Directory (es @ [(k, wrap ks (Directory []))])) (root w)"
proof (induction ks arbitrary: ok rule: rev_induct)
  case Nil
  from os_mkdir_new[OF assms(2,1,3)] show ?case by simp
next
  case (snoc kn ks)
  let ?p = "q @ k # ks @ [kn]"
  let ?pp = "q @ k # ks"
  have par: "parent ?p = ?pp" by (simp add: parent_def butlast_append)
  have "os_mkdir w ?p = Raised FileNotFoundError w"
    using resolve_missing[OF assms(2,3), of "ks @ [kn]"] resolve_missing[OF assms(2,3), of ks]
    by (simp add: os_mkdir_def is_dir_def par)
  moreover from snoc[of True] obtain w1 where m1: "mkdir w ?pp True True = Done w1"
    and r1: "root w1 = put q (Directory (es @ [(k, wrap ks (Directory []))])) (root w)"
    by blast
  moreover have "parent ?p \<noteq> ?p" unfolding par by simp
  ultimately have step: "mkdir w ?p True ok = mkdir w1 ?p False ok"
    by (subst mkdir.simps) (simp add: par)
  from distinct_names_resolve[OF assms(2,1)] assms(3)
  have dn: "distinct_names (Directory (es @ [(k, wrap ks (Directory []))]))"
    by (intro distinct_names_snoc distinct_names_wrap) simp_all
  have d1: "distinct_names (root w1)"
    unfolding r1 by (rule distinct_names_put[OF assms(1) dn])
  have "map_of (es @ [(k, wrap ks (Directory []))]) k = Some (wrap ks (Directory []))"
    using assms(3) by (simp add: map_add_def map_of_eq_None_iff[THEN iffD2])
  then have "resolve (Directory (es @ [(k, wrap ks (Directory []))])) (k # ks)
      = Inr (Directory [])"
    using resolve_wrap[of ks "Directory []" "[]"] by (simp del: map_of_append)
  then have rpp: "resolve (root w1) ?pp = Inr (Directory [])"
    unfolding r1 using resolve_put[OF assms(2), of _ "k # ks"] by simp
  have "os_mkdir w1 (?pp @ [kn]) =
    Done (w1\<lparr>root := put ?pp (Directory ([] @ [(kn, Directory [])])) (root w1),
            calls := calls w1 @ [Mkdir (?pp @ [kn])]\<rparr>)"
    by (rule os_mkdir_new[OF rpp d1]) simp
  then have "mkdir w1 ?p False ok =
    Done (w1\<lparr>root := put ?pp (Directory [(kn, Directory [])]) (root w1),
            calls := calls w1 @ [Mkdir ?p]\<rparr>)"
    by (subst mkdir.simps) simp
  then obtain w' where m2: "mkdir w1 ?p False ok = Done w'"
    and r2: "root w' = put ?pp (Directory [(kn, Directory [])]) (root w1)"
    by simp
  have "root w' = put q (put (k # ks) (Directory [(kn, Directory [])])
      (Directory (es @ [(k, wrap ks (Directory []))]))) (root w)"
    unfolding r2 r1 using put_under[OF assms(2,1) dn, of "k # ks"] by simp
  also have "put (k # ks) (Directory [(kn, Directory [])])
      (Directory (es @ [(k, wrap ks (Directory []))]))
      = Directory (es @ [(k, wrap (ks @ [kn]) (Directory []))])"
    using assms(3) by (simp add: map_other_names put_wrap wrap_snoc)
  finally show ?case using step m2 by simp
qed

lemma numbered_alt: "numbered ds = Directory (map (\<lambda>i. (str i, file_dir)) ds)"
  by (simp add: numbered_def file_dir_def)

lemma distinct_names_numbered: "distinct (map str ds) \<Longrightarrow> distinct_names (numbered ds)"
  by (simp add: numbered_alt file_dir_def list_all_iff comp_def)

lemma distinct_names_lettered: "distinct cs \<Longrightarrow> distinct_names (lettered cs)"
  by (simp add: lettered_def list_all_iff comp_def distinct_map inj_on_def
      distinct_names_numbered[unfolded numbered_def] numbered_def str.simps upt_rec)

lemma make_numbered_step:
  assumes "distinct_names (root w)" "resolve (root w) q = Inr (Directory es)" "k \<notin> fst ` set es"
    and "q @ k # ks = base_dir @ [''new'', char, str i]"
  shows "\<exists>w'. make_numbered w base_dir char (i # rest) = make_numbered w' base_dir char rest \<and>
    root w' = put q (Directory (es @ [(k, wrap ks file_dir)])) (root w)"
proof -
  let ?new = "q @ k # ks"
  from mkdir_parents_new[OF assms(1,2,3), of ks False] obtain w1
    where m: "mkdir w ?new True False = Done w1"
      and r1: "root w1 = put q (Directory (es @ [(k, wrap ks (Directory []))])) (root w)"
    by blast
  from distinct_names_resolve[OF assms(2,1)] assms(3)
  have dn: "distinct_names (Directory (es @ [(k, wrap ks (Directory []))]))"
    by (intro distinct_names_snoc distinct_names_wrap) simp_all
  have d1: "distinct_names (root w1)"
    unfolding r1 by (rule distinct_names_put[OF assms(1) dn])
  have "map_of (es @ [(k, wrap ks (Directory []))]) k = Some (wrap ks (Directory []))"
    using assms(3) by (simp add: map_add_def map_of_eq_None_iff[THEN iffD2])
  then have "resolve (Directory (es @ [(k, wrap ks (Directory []))])) (k # ks)
      = Inr (Directory [])"
    using resolve_wrap[of ks "Directory []" "[]"] by (simp del: map_of_append)
  then have rn: "resolve (root w1) ?new = Inr (Directory [])"
    unfolding r1 using resolve_put[OF assms(2), of _ "k # ks"] by simp
  have "write_text w1 (?new @ [''file.txt'']) ''PyRVA is Awesome!'' =
    Done (w1\<lparr>root := put ?new (Directory ([] @ [(''file.txt'', RegularFile ''PyRVA is Awesome!'')])) (root w1),
            calls := calls w1 @ [Write (?new @ [''file.txt'']) ''PyRVA is Awesome!'']\<rparr>)"
    by (rule write_text_new[OF rn d1]) simp
  then obtain w' where wt: "write_text w1 (?new @ [''file.txt'']) ''PyRVA is Awesome!'' = Done w'"
    and r2: "root w' = put ?new file_dir (root w1)"
    by (simp add: file_dir_def)
  have "root w' = put q (put (k # ks) file_dir (Directory (es @ [(k, wrap ks (Directory []))]))) (root w)"
    unfolding r2 r1 using put_under[OF assms(2,1) dn, of "k # ks"] by simp
  also have "put (k # ks) file_dir (Directory (es @ [(k, wrap ks (Directory []))]))
      = Directory (es @ [(k, wrap ks file_dir)])"
    using assms(3) by (simp add: map_other_names put_wrap)
  finally have "root w' = put q (Directory (es @ [(k, wrap ks file_dir)])) (root w)" .
  moreover have "make_numbered w base_dir char (i # rest) = make_numbered w' base_dir char rest"
    using m wt assms(4)[symmetric] by (simp add: Let_def)
  ultimately show ?thesis by blast
qed

lemma make_numbered_more:
  assumes "distinct_names (root w)" "resolve (root w) (base_dir @ [''new'', char]) = Inr (numbered ds)"
    and "distinct (map str (ds @ rest))"
  shows "\<exists>w'. make_numbered w base_dir char rest = Done w' \<and>
    root w' = put (base_dir @ [''new'', char]) (numbered (ds @ rest)) (root w)"
  using assms
proof (induction rest arbitrary: w ds)
  case Nil
  then show ?case by (simp add: put_resolve_id)
next
  case (Cons i rest)
  let ?q = "base_dir @ [''new'', char]"
  have r: "resolve (root w) ?q = Inr (Directory (map (\<lambda>i. (str i, file_dir)) ds))"
    using Cons.prems(2) by (simp add: numbered_alt)
  have fresh: "str i \<notin> fst ` set (map (\<lambda>i. (str i, file_dir)) ds)"
    using Cons.prems(3) by (auto simp: image_iff)
  from make_numbered_step[OF Cons.prems(1) r fresh, of "[]" base_dir char i rest]
  obtain w1 where s: "make_numbered w base_dir char (i # rest) = make_numbered w1 base_dir char rest"
    and r1: "root w1 = put ?q (numbered (ds @ [i])) (root w)"
    by (auto simp: numbered_alt)
  have dn: "distinct_names (numbered (ds @ [i]))"
    using Cons.prems(3) by (intro distinct_names_numbered) simp
  have d1: "distinct_names (root w1)"
    unfolding r1 by (rule distinct_names_put[OF Cons.prems(1) dn])
  have rq: "resolve (root w1) ?q = Inr (numbered (ds @ [i]))"
    unfolding r1 using resolve_put[OF Cons.prems(2), of _ "[]"] by simp
  from Cons.IH[OF d1 rq] Cons.prems(3)
  obtain w' where "make_numbered w1 base_dir char rest = Done w'"
    and "root w' = put ?q (numbered ((ds @ [i]) @ rest)) (root w1)"
    by auto
  with s r1 show ?case by (simp add: put_put)
qed

lemma make_numbered_all:
  assumes "distinct_names (root w)" "resolve (root w) q = Inr (Directory es)" "k \<notin> fst ` set es"
    and "q @ k # ks = base_dir @ [''new'', char]" and "distinct (map str (i # rest))"
  shows "\<exists>w'. make_numbered w base_dir char (i # rest) = Done w' \<and>
    root w' = put q (Directory (es @ [(k, wrap ks (numbered (i # rest)))])) (root w)"
proof -
  let ?d = "Directory (es @ [(k, wrap ks (numbered [i]))])"
  have path: "q @ k # (ks @ [str i]) = base_dir @ [''new'', char, str i]"
    using assms(4) by (metis append.assoc append_Cons append_Nil)
  from make_numbered_step[OF assms(1,2,3) path, of rest]
  obtain w1 where s: "make_numbered w base_dir char (i # rest) = make_numbered w1 base_dir char rest"
    and r1: "root w1 = put q ?d (root w)"
    by (auto simp: wrap_snoc numbered_alt)
  from distinct_names_resolve[OF assms(2,1)] assms(3)
  have dn: "distinct_names ?d"
    by (intro distinct_names_snoc distinct_names_wrap distinct_names_numbered) simp_all
  have d1: "distinct_names (root w1)"
    unfolding r1 by (rule distinct_names_put[OF assms(1) dn])
  have "map_of (es @ [(k, wrap ks (numbered [i]))]) k = Some (wrap ks (numbered [i]))"
    using assms(3) by (simp add: map_add_def map_of_eq_None_iff[THEN iffD2])
  then have "resolve ?d (k # ks) = Inr (numbered [i])"
    using resolve_wrap[of ks "numbered [i]" "[]"] by (simp del: map_of_append)
  then have "resolve (root w1) (q @ k # ks) = Inr (numbered [i])"
    unfolding r1 using resolve_put[OF assms(2), of _ "k # ks"] by simp
  then have rq: "resolve (root w1) (base_dir @ [''new'', char]) = Inr (numbered [i])"
    unfolding assms(4) .
  from make_numbered_more[OF d1 rq, of rest] assms(5)
  obtain w' where m: "make_numbered w1 base_dir char rest = Done w'"
    and "root w' = put (base_dir @ [''new'', char]) (numbered ([i] @ rest)) (root w1)"
    by auto
  then have "root w' = put (q @ k # ks) (numbered (i # rest)) (put q ?d (root w))"
    unfolding assms(4) r1 by simp
  also have "\<dots> = put q (put (k # ks) (numbered (i # rest)) ?d) (root w)"
    by (rule put_under[OF assms(2,1) dn])
  also have "put (k # ks) (numbered (i # rest)) ?d
      = Directory (es @ [(k, wrap ks (numbered (i # rest)))])"
    using assms(3) by (simp add: map_other_names put_wrap)
  finally show ?thesis using s m by simp
qed

lemma range10: "[0..<10] = 0 # [1..<10]"
  by (simp add: upt_rec)

lemma distinct_str10: "distinct (map str (0 # [1..<10]))"
  by (simp add: upt_rec str.simps)

lemma lettered_snoc: "lettered (cs @ [c]) = Directory (map (\<lambda>c. ([c], numbered [0..<10])) cs @ [([c], numbered [0..<10])])"
  by (simp add: lettered_def)

lemma make_lettered_more:
  assumes "distinct_names (root w)" "resolve (root w) (base_dir @ [''new'']) = Inr (lettered done)"
    and "distinct (done @ cs)"
  shows "\<exists>w'. make_lettered w base_dir cs = Done w' \<and>
    root w' = put (base_dir @ [''new'']) (lettered (done @ cs)) (root w)"
  using assms
proof (induction cs arbitrary: w "done")
  case Nil
  then show ?case by (simp add: put_resolve_id)
next
  case (Cons c cs)
  let ?q = "base_dir @ [''new'']"
  let ?es = "map (\<lambda>c. ([c], numbered [0..<10])) done"
  have r: "resolve (root w) ?q = Inr (Directory ?es)"
    using Cons.prems(2) by (simp add: lettered_def)
  have fresh: "[c] \<notin> fst ` set ?es"
    using Cons.prems(3) by (auto simp: image_iff)
  have path: "?q @ [c] # [] = base_dir @ [''new'', [c]]" by simp
  from make_numbered_all[OF Cons.prems(1) r fresh path distinct_str10]
  obtain w1 where m: "make_numbered w base_dir [c] [0..<10] = Done w1"
    and r1: "root w1 = put ?q (lettered (done @ [c])) (root w)"
    unfolding range10[symmetric] by (auto simp: lettered_snoc)
  have dn: "distinct_names (lettered (done @ [c]))"
    using Cons.prems(3) by (intro distinct_names_lettered) simp
  have d1: "distinct_names (root w1)"
    unfolding r1 by (rule distinct_names_put[OF Cons.prems(1) dn])
  have rq: "resolve (root w1) ?q = Inr (lettered (done @ [c]))"
    unfolding r1 using resolve_put[OF Cons.prems(2), of _ "[]"] by simp
  from Cons.IH[OF d1 rq] Cons.prems(3)
  obtain w' where "make_lettered w1 base_dir cs = Done w'"
    and "root w' = put ?q (lettered ((done @ [c]) @ cs)) (root w1)"
    by auto
  with m r1 show ?case by (simp add: put_put)
qed

lemma make_lettered_all:
  assumes "distinct_names (root w)" "resolve (root w) base_dir = Inr (Directory es)"
    and "''new'' \<notin> fst ` set es" and "distinct (c # cs)"
  shows "\<exists>w'. make_lettered w base_dir (c # cs) = Done w' \<and>
    root w' = put base_dir (Directory (es @ [(''new'', lettered (c # cs))])) (root w)"
proof -
  let ?d = "Directory (es @ [(''new'', lettered [c])])"
  have path: "base_dir @ ''new'' # [[c]] = base_dir @ [''new'', [c]]" by simp
  from make_numbered_all[OF assms(1,2,3) path distinct_str10]
  obtain w1 where m: "make_numbered w base_dir [c] [0..<10] = Done w1"
    and r1: "root w1 = put base_dir ?d (root w)"
    unfolding range10[symmetric] by (auto simp: lettered_def)
  from distinct_names_resolve[OF assms(2,1)] assms(3)
  have dn: "distinct_names ?d"
    by (intro distinct_names_snoc distinct_names_lettered) simp_all
  have d1: "distinct_names (root w1)"
    unfolding r1 by (rule distinct_names_put[OF assms(1) dn])
  have "map_of (es @ [(''new'', lettered [c])]) ''new'' = Some (lettered [c])"
    using assms(3) by (simp add: map_add_def map_of_eq_None_iff[THEN iffD2])
  then have "resolve ?d [''new''] = Inr (lettered [c])"
    by (simp del: map_of_append)
  then have rq: "resolve (root w1) (base_dir @ [''new'']) = Inr (lettered [c])"
    unfolding r1 using resolve_put[OF assms(2), of _ "[''new'']"] by simp
  from make_lettered_more[OF d1 rq, of cs] assms(4)
  obtain w' where l: "make_lettered w1 base_dir cs = Done w'"
    and "root w' = put (base_dir @ [''new'']) (lettered ([c] @ cs)) (root w1)"
    by auto
  then have "root w' = put (base_dir @ [''new'']) (lettered (c # cs)) (put base_dir ?d (root w))"
    unfolding r1 by simp
  also have "\<dots> = put base_dir (put [''new''] (lettered (c # cs)) ?d) (root w)"
    by (rule put_under[OF assms(2,1) dn])
  also have "put [''new''] (lettered (c # cs)) ?d = Directory (es @ [(''new'', lettered (c # cs))])"
    using assms(3) by (simp add: map_other_names)
  finally show ?thesis using m l by simp
qed

lemma distinct_ascii_lowercase: "distinct ascii_lowercase"
  by (simp add: ascii_lowercase_def)

lemma make_new_first_run:
  assumes "distinct_names (root w)" "resolve (root w) base_dir = Inr (Directory es)"
    and "''new'' \<notin> fst ` set es"
  shows "\<exists>w'. make_new w base_dir = Done w' \<and>
    root w' = put base_dir (Directory (es @ [(''new'', lettered ascii_lowercase)])) (root w)"
proof -
  obtain c cs where a: "ascii_lowercase = c # cs"
    by (simp add: ascii_lowercase_def)
  from make_lettered_all[OF assms, of c cs] distinct_ascii_lowercase a
  show ?thesis unfolding make_new_def by simp
qed

lemma resolve_numbered_dir:
  assumes "resolve r base_dir = Inr m" "''new'' \<notin> fst ` set es"
    and "c \<in> set ascii_lowercase" "i < 10"
  shows "resolve (put base_dir (Directory (es @ [(''new'', lettered ascii_lowercase)])) r)
      (base_dir @ [''new'', [c], str i]) = Inr file_dir"
proof -
  have 1: "map_of (es @ [(''new'', lettered ascii_lowercase)]) ''new'' = Some (lettered ascii_lowercase)"
    using assms(2) by (simp add: map_add_def map_of_eq_None_iff[THEN iffD2])
  have "distinct (map (\<lambda>c. [c]) ascii_lowercase)"
    using distinct_ascii_lowercase by (simp add: distinct_map inj_on_def)
  then have 2: "map_of (map (\<lambda>c. ([c], numbered [0..<10])) ascii_lowercase) [c] = Some (numbered [0..<10])"
    using assms(3) by (intro map_of_distinct_entry) (auto simp: comp_def)
  have "distinct (map str [0..<10])" using distinct_str10 range10 by simp
  then have 3: "map_of (map (\<lambda>i. (str i, file_dir)) [0..<10]) (str i) = Some file_dir"
    using assms(4) by (intro map_of_distinct_entry) (auto simp: comp_def)
  have "resolve (Directory (es @ [(''new'', lettered ascii_lowercase)])) [''new'', [c], str i] = Inr file_dir"
    using 1 2 3 by (simp add: lettered_def numbered_alt del: map_of_append)
  then show ?thesis
    using resolve_put[OF assms(1), of _ "[''new'', [c], str i]"] by simp
qed

lemma make_new_second_run:
  assumes "resolve (root w) (base_dir @ [''new'', ''a'', ''0'']) = Inr n"
  shows "make_new w base_dir = Raised FileExistsError w"
proof -
  have "os_mkdir w (base_dir @ [''new'', ''a'', ''0'']) = Raised FileExistsError w"
    using assms by (simp add: os_mkdir_def)
  then have "mkdir w (base_dir @ [''new'', ''a'', ''0'']) True False = Raised FileExistsError w"
    by (subst mkdir.simps) simp
  moreover have "str 0 = ''0''" by (simp add: str.simps)
  ultimately show ?thesis
    by (simp add: make_new_def ascii_lowercase_def range10 Let_def)
qed

lemma length_numbered_dirs: "length (numbered_dirs base_dir) = 260"
  by (simp add: numbered_dirs_def ascii_lowercase_def)

lemma distinct_numbered_dirs: "distinct (numbered_dirs base_dir)"
proof -
  have "distinct (map str [0..<10])"
    using distinct_str10 range10 by simp
  then have "inj_on str (set [0..<10])"
    by (simp only: distinct_map)
  then have inj: "inj_on (\<lambda>i. base_dir @ [''new'', [c], str i]) (set [0..<10])" for c
    unfolding inj_on_def by simp
  show ?thesis
    unfolding numbered_dirs_def
  proof (rule distinct_concat)
    show "distinct (map (\<lambda>c. map (\<lambda>i. base_dir @ [''new'', [c], str i]) [0..<10]) ascii_lowercase)"
      using distinct_ascii_lowercase by (auto simp: distinct_map inj_on_def range10)
  next
    fix ys assume "ys \<in> set (map (\<lambda>c. map (\<lambda>i. base_dir @ [''new'', [c], str i]) [0..<10]) ascii_lowercase)"
    then show "distinct ys" using inj by (auto simp: distinct_map simp del: upt_Suc)
  next
    fix ys zs
    assume "ys \<in> set (map (\<lambda>c. map (\<lambda>i. base_dir @ [''new'', [c], str i]) [0..<10]) ascii_lowercase)"
      "zs \<in> set (map (\<lambda>c. map (\<lambda>i. base_dir @ [''new'', [c], str i]) [0..<10]) ascii_lowercase)"
      "ys \<noteq> zs"
    then show "set ys \<inter> set zs = {}" by auto
  qed
qed

lemma in_concat_map: "c \<in> set cs \<Longrightarrow> x \<in> set (f c) \<Longrightarrow> x \<in> set (concat (map f cs))"
  by auto

text \<open>
  C10.  Let \<^verbatim>\<open>base_dir\<close> be a directory that has no entry \<^verbatim>\<open>new\<close>.  Run once, the cell
  completes and adds to \<^verbatim>\<open>base_dir\<close> the entry \<^verbatim>\<open>new\<close> with the tree \<open>lettered\<close>, and
  nothing else: 260 numbered directories, each holding \<^verbatim>\<open>file.txt\<close>.  Run again on the
  state so produced, the first \<^verbatim>\<open>mkdir\<close> raises \<^verbatim>\<open>FileExistsError\<close> and the state is as
  it was: no call is made, and no directory or file created.
\<close>

theorem make_new_twice:
  assumes "distinct_names (root w)" and "resolve (root w) base_dir = Inr (Directory es)"
    and "''new'' \<notin> fst ` set es"
  shows "\<exists>w'. make_new w base_dir = Done w' \<and>
    root w' = put base_dir (Directory (es @ [(''new'', lettered ascii_lowercase)])) (root w) \<and>
    length (numbered_dirs base_dir) = 260 \<and> distinct (numbered_dirs base_dir) \<and>
    (\<forall>d\<in>set (numbered_dirs base_dir).
       resolve (root w') d = Inr (Directory [(''file.txt'', RegularFile ''PyRVA is Awesome!'')])) \<and>
    make_new w' base_dir = Raised FileExistsError w'"
proof -
  from make_new_first_run[OF assms] obtain w' where run: "make_new w base_dir = Done w'"
    and r: "root w' = put base_dir (Directory (es @ [(''new'', lettered ascii_lowercase)])) (root w)"
    by blast
  have dirs: "resolve (root w') d = Inr file_dir" if "d \<in> set (numbered_dirs base_dir)" for d
  proof -
    from that obtain c i where "c \<in> set ascii_lowercase" "i < 10"
      and d: "d = base_dir @ [''new'', [c], str i]"
      unfolding numbered_dirs_def by auto
    with resolve_numbered_dir[OF assms(2,3)] show ?thesis unfolding r by simp
  qed
  have "resolve (root w') (base_dir @ [''new'', ''a'', ''0'']) = Inr file_dir"
    using resolve_numbered_dir[OF assms(2,3), of "CHR ''a''" 0]
    unfolding r by (simp add: ascii_lowercase_def str.simps)
  then have again: "make_new w' base_dir = Raised FileExistsError w'"
    by (rule make_new_second_run)
  from run r dirs again length_numbered_dirs distinct_numbered_dirs show ?thesis
    by (auto simp: file_dir_def)
qed

theorem make_new_twice_witness:
  "\<exists>w'. make_new home_world [''home''] = Done w' \<and>
     root w' = Directory [(''home'', Directory [(''repo'', Directory []),
                                               (''new'', lettered ascii_lowercase)])] \<and>
     length (numbered_dirs [''home'']) = 260 \<and>
     resolve (root w') [''home'', ''new'', ''z'', ''9''] =
       Inr (Directory [(''file.txt'', RegularFile ''PyRVA is Awesome!'')]) \<and>
     make_new w' [''home''] = Raised FileExistsError w'"
proof -
  have 1: "distinct_names (root home_world)" by (simp add: home_world_def)
  have 2: "resolve (root home_world) [''home''] = Inr (Directory [(''repo'', Directory [])])"
    by (simp add: home_world_def)
  have 3: "''new'' \<notin> fst ` set [(''repo'', Directory [])]" by simp
  have 4: "put [''home''] (Directory ([(''repo'', Directory [])] @ [(''new'', lettered ascii_lowercase)]))
      (root home_world)
    = Directory [(''home'', Directory [(''repo'', Directory []), (''new'', lettered ascii_lowercase)])]"
    by (simp add: home_world_def)
  have z: "CHR ''z'' \<in> set ascii_lowercase" by (simp add: ascii_lowercase_def)
  have "str 9 = ''9''" by (simp add: str.simps)
  then have "[''home'', ''new'', ''z'', ''9''] = [''home''] @ [''new'', [CHR ''z''], str 9]"
    by simp
  moreover have "(9::nat) \<in> set [0..<10]" by simp
  ultimately have "[''home'', ''new'', ''z'', ''9'']
      \<in> set (map (\<lambda>i. [''home''] @ [''new'', [CHR ''z''], str i]) [0..<10])"
    unfolding set_map by (rule image_eqI)
  with z have 5: "[''home'', ''new'', ''z'', ''9''] \<in> set (numbered_dirs [''home''])"
    unfolding numbered_dirs_def by (rule in_concat_map)
  from make_new_twice[OF 1 2 3] 5 show ?thesis
    unfolding 4 by blast
qed

section \<open>Pathlib notebook: the renaming loop\<close>

lemma rfind_last: "c \<notin> set t \<Longrightarrow> rfind c (s @ c # t) = Some (length s)"
proof -
  assume c: "c \<notin> set t"
  have "takeWhile (\<lambda>x. x \<noteq> c) (rev t @ c # rev s) = rev t"
    using c by (auto simp: takeWhile_tail)
  thus ?thesis by (simp add: rfind_def)
qed

lemma fnmatch_jpg_split: "fnmatch_jpg k \<Longrightarrow> \<exists>s. k = s @ ''.jpg''"
  unfolding fnmatch_jpg_def by (metis append_take_drop_id)

lemma fnmatch_jpg_append: "fnmatch_jpg (s @ ''.jpg'')"
  by (simp add: fnmatch_jpg_def)

lemma name_snoc: "name (p @ [k]) = k" "parent (p @ [k]) = p"
  by (simp_all add: name_def parent_def)

lemma suffix_jpg: "s \<noteq> [] \<Longrightarrow> suffix (p @ [s @ ''.jpg'']) = ''.jpg''"
  using rfind_last[of "CHR ''.''" "''jpg''" s] by (simp add: suffix_def name_snoc)

lemma stem_jpg: "s \<noteq> [] \<Longrightarrow> stem (p @ [s @ ''.jpg'']) = s"
  using rfind_last[of "CHR ''.''" "''jpg''" s] by (simp add: stem_def name_snoc)

lemma str_split_no_sep: "sep \<notin> set n \<Longrightarrow> str_split sep n = [n]"
  by (induction n) auto

lemma with_name_ok:
  assumes "name p \<noteq> []" "n \<noteq> []" "CHR ''/'' \<notin> set n" "n \<noteq> ''.''"
  shows "with_name p n = Inr (parent p @ [n])"
proof -
  have "parse_parts n = [n]" using assms by (simp add: parse_parts_def str_split_no_sep)
  moreover have "last n \<noteq> CHR ''/''" using assms by (metis last_in_set)
  moreover have "hd n \<noteq> CHR ''/''" using assms by (metis hd_in_set)
  ultimately show ?thesis using assms by (simp add: with_name_def)
qed

lemma with_name_parent: "with_name p n = Inr q \<Longrightarrow> parent q = parent p \<and> name q = n"
  by (auto simp: with_name_def name_snoc split: if_splits)

lemma rename_fresh:
  assumes dn: "distinct_names (root w)"
    and dir: "resolve (root w) dir = Inr (Directory cur)"
    and kc: "(k, c) \<in> set cur" and fresh: "k' \<notin> fst ` set cur"
  shows "rename w (dir @ [k]) (dir @ [k']) =
     Done (w\<lparr>root := put dir (Directory (filter (\<lambda>(x, c). x \<noteq> k) cur @ [(k', c)])) (root w),
             calls := calls w @ [Rename (dir @ [k]) (dir @ [k'])]\<rparr>)"
proof -
  have dcur: "distinct_names (Directory cur)" using distinct_names_resolve[OF dir dn] .
  hence "map_of cur k = Some c" using kc by (simp add: map_of_distinct_entry)
  hence src: "resolve (root w) (dir @ [k]) = Inr c" using dir by (simp add: resolve_append)
  have ne: "k' \<noteq> k" using kc fresh by force
  have dst: "resolve (root w) (dir @ [k']) = Inl FileNotFoundError"
    using resolve_missing[OF dir fresh, of "[]"] by simp
  have isd: "is_dir w (parent (dir @ [k']))" using dir by (simp add: is_dir_def name_snoc)
  have np: "\<not> is_prefix (dir @ [k]) (dir @ [k'])" using ne by (simp add: is_prefix_def)
  let ?cur' = "filter (\<lambda>(x, c). x \<noteq> k) cur"
  have rm: "remove_entry (dir @ [k]) (root w) = put dir (Directory ?cur') (root w)"
    using remove_entry_put[OF dir dn] .
  have dcur': "distinct_names (Directory ?cur')"
    using dcur by (auto simp: distinct_map_filter list_all_iff)
  have dn': "distinct_names (put dir (Directory ?cur') (root w))"
    using distinct_names_put[OF dn dcur'] .
  have res': "resolve (put dir (Directory ?cur') (root w)) dir = Inr (Directory ?cur')"
    using resolve_put[OF dir, of "Directory ?cur'" "[]"] by simp
  have fresh': "k' \<notin> fst ` set ?cur'" using fresh by auto
  have "set_entry (dir @ [k']) c (put dir (Directory ?cur') (root w))
      = put dir (Directory (?cur' @ [(k', c)])) (put dir (Directory ?cur') (root w))"
    using set_entry_new[OF res' dn' fresh'] .
  hence mv: "set_entry (dir @ [k']) c (remove_entry (dir @ [k]) (root w))
      = put dir (Directory (?cur' @ [(k', c)])) (root w)"
    by (simp add: rm put_put)
  show ?thesis
    using src dst isd np ne mv by (cases c) (simp_all add: rename_def)
qed

lemma stems_only_refl: "stems_only w w"
  by (simp add: stems_only_def)

lemma stems_only_append:
  "calls w' = calls w @ cs \<Longrightarrow> list_all stem_only cs \<Longrightarrow> stems_only w w'"
  by (simp add: stems_only_def)

lemma stems_only_trans:
  assumes "stems_only w w1" "stems_only w1 w2"
  shows "stems_only w w2"
proof -
  obtain cs where cs: "calls w1 = calls w @ cs" "list_all stem_only cs"
    using assms(1) unfolding stems_only_def by (metis append_take_drop_id)
  obtain ds where ds: "calls w2 = calls w1 @ ds" "list_all stem_only ds"
    using assms(2) unfolding stems_only_def by (metis append_take_drop_id)
  show ?thesis using cs ds by (simp add: stems_only_def)
qed

lemma well_mapped_new_name:
  assumes "fnmatch_jpg k" "well_mapped mapping k"
  obtains s v where "k = s @ ''.jpg''" "s \<noteq> []" "mapping s = Some v" "v \<noteq> []"
    "CHR ''/'' \<notin> set v" "new_name mapping k = v @ ''.jpg''"
proof -
  obtain s where k: "k = s @ ''.jpg''" using fnmatch_jpg_split[OF assms(1)] by blast
  have s: "s \<noteq> []" using assms(2) k by (auto simp: well_mapped_def)
  have st: "stem [k] = s" "suffix [k] = ''.jpg''"
    using stem_jpg[OF s, of "[]"] suffix_jpg[OF s, of "[]"] k by simp_all
  obtain v where v: "mapping s = Some v" "v \<noteq> []" "CHR ''/'' \<notin> set v"
    using assms(2) st by (auto simp: well_mapped_def split: option.splits)
  have "new_name mapping k = v @ ''.jpg''" using v st by (simp add: new_name_def)
  thus ?thesis using that k s v by blast
qed

lemma rename_image_ok:
  assumes dn: "distinct_names (root w)"
    and dir: "resolve (root w) dir = Inr (Directory cur)"
    and kc: "(k, c) \<in> set cur" and jpg: "fnmatch_jpg k" and wm: "well_mapped mapping k"
    and fresh: "new_name mapping k \<notin> fst ` set cur"
  shows "rename_image mapping w (dir @ [k]) =
     Done (w\<lparr>root := put dir (Directory (filter (\<lambda>(x, c). x \<noteq> k) cur @ [(new_name mapping k, c)])) (root w),
             calls := calls w @ [Rename (dir @ [k]) (dir @ [new_name mapping k])]\<rparr>)"
    and "stem_only (Rename (dir @ [k]) (dir @ [new_name mapping k]))"
    and "fnmatch_jpg (new_name mapping k)"
proof -
  obtain s v where k: "k = s @ ''.jpg''" and s: "s \<noteq> []" and v: "mapping s = Some v" "v \<noteq> []"
    "CHR ''/'' \<notin> set v" and nn: "new_name mapping k = v @ ''.jpg''"
    using well_mapped_new_name[OF jpg wm] by blast
  have st: "stem (dir @ [k]) = s" "suffix (dir @ [k]) = ''.jpg''"
    using stem_jpg[OF s, of dir] suffix_jpg[OF s, of dir] k by simp_all
  have wn: "with_name (dir @ [k]) (v @ ''.jpg'') = Inr (dir @ [v @ ''.jpg''])"
    using with_name_ok[of "dir @ [k]" "v @ ''.jpg''"] v k by (simp add: name_snoc)
  show "rename_image mapping w (dir @ [k]) =
     Done (w\<lparr>root := put dir (Directory (filter (\<lambda>(x, c). x \<noteq> k) cur @ [(new_name mapping k, c)])) (root w),
             calls := calls w @ [Rename (dir @ [k]) (dir @ [new_name mapping k])]\<rparr>)"
    using rename_fresh[OF dn dir kc fresh] st v wn nn by (simp add: rename_image_def)
  show "stem_only (Rename (dir @ [k]) (dir @ [new_name mapping k]))"
    using st suffix_jpg[OF v(2), of dir] stem_jpg[OF v(2), of dir] v(2) nn by (simp add: name_snoc)
  show "fnmatch_jpg (new_name mapping k)" using nn fnmatch_jpg_append by simp
qed

lemma rename_images_dir:
  assumes "distinct_names (root w)"
    and "resolve (root w) dir = Inr (Directory cur)"
    and "set imgs \<subseteq> set cur" and "distinct imgs"
    and "\<forall>(k, c) \<in> set imgs. fnmatch_jpg k \<and> well_mapped mapping k"
    and "distinct (map (\<lambda>(k, c). new_name mapping k) imgs)"
    and "\<forall>(k, c) \<in> set imgs. new_name mapping k \<notin> fst ` set cur"
  shows "\<exists>w'. rename_images mapping w (map (\<lambda>(k, c). dir @ [k]) imgs) = Done w' \<and>
     root w' = put dir (Directory (filter (\<lambda>(x, c). x \<notin> fst ` set imgs) cur @
                                   map (\<lambda>(k, c). (new_name mapping k, c)) imgs)) (root w) \<and>
     stems_only w w'"
  using assms
proof (induction imgs arbitrary: w cur)
  case Nil
  have "put dir (Directory cur) (root w) = root w"
    using put_resolve_id[OF Nil(2) Nil(1)] .
  thus ?case by (simp add: stems_only_refl)
next
  case (Cons img imgs)
  obtain k c where img: "img = (k, c)" by (cases img)
  let ?k' = "new_name mapping k"
  let ?cur' = "filter (\<lambda>(x, c). x \<noteq> k) cur @ [(?k', c)]"
  let ?w1 = "w\<lparr>root := put dir (Directory ?cur') (root w),
               calls := calls w @ [Rename (dir @ [k]) (dir @ [?k'])]\<rparr>"
  have kc: "(k, c) \<in> set cur" using Cons.prems(3) img by simp
  have jpg: "fnmatch_jpg k" and wm: "well_mapped mapping k" using Cons.prems(5) img by auto
  have fresh: "?k' \<notin> fst ` set cur" using Cons.prems(7) img by auto
  have step: "rename_image mapping w (dir @ [k]) = Done ?w1"
    and so: "stem_only (Rename (dir @ [k]) (dir @ [?k']))"
    using rename_image_ok[OF Cons.prems(1,2) kc jpg wm fresh] by blast+
  have dcur: "distinct_names (Directory cur)"
    using distinct_names_resolve[OF Cons.prems(2,1)] .
  have dc: "distinct_names c" using distinct_names_entry[OF dcur kc] .
  have dcur': "distinct_names (Directory ?cur')"
    using dcur dc fresh by (auto simp: distinct_map_filter list_all_iff)
  have dn1: "distinct_names (root ?w1)"
    using distinct_names_put[OF Cons.prems(1) dcur'] by simp
  have dir1: "resolve (root ?w1) dir = Inr (Directory ?cur')"
    using resolve_put[OF Cons.prems(2), of "Directory ?cur'" "[]"] by simp
  have knot: "k \<notin> fst ` set imgs"
  proof
    assume "k \<in> fst ` set imgs"
    then obtain c' where c': "(k, c') \<in> set imgs" by auto
    hence "(k, c') \<in> set cur" using Cons.prems(3) by auto
    hence "c' = c" using dcur kc by (auto dest: eq_key_imp_eq_value)
    thus False using c' Cons.prems(4) img by simp
  qed
  have sub1: "set imgs \<subseteq> set ?cur'"
  proof
    fix e assume e: "e \<in> set imgs"
    hence "fst e \<noteq> k" using knot by force
    moreover have "e \<in> set cur" using e Cons.prems(3) by auto
    ultimately show "e \<in> set ?cur'" by (cases e) auto
  qed
  have fresh1: "\<forall>(x, y) \<in> set imgs. new_name mapping x \<notin> fst ` set ?cur'"
  proof -
    have "new_name mapping x \<notin> fst ` set ?cur'" if xy: "(x, y) \<in> set imgs" for x y
    proof
      assume mem: "new_name mapping x \<in> fst ` set ?cur'"
      have "new_name mapping x \<notin> fst ` set cur" using Cons.prems(7) xy by auto
      hence "new_name mapping x = ?k'" using mem by auto
      thus False using Cons.prems(6) xy img by force
    qed
    thus ?thesis by auto
  qed
  obtain w' where run: "rename_images mapping ?w1 (map (\<lambda>(k, c). dir @ [k]) imgs) = Done w'"
    and rt: "root w' = put dir (Directory (filter (\<lambda>(x, c). x \<notin> fst ` set imgs) ?cur' @
                                   map (\<lambda>(k, c). (new_name mapping k, c)) imgs)) (root ?w1)"
    and so': "stems_only ?w1 w'"
    using Cons.IH[OF dn1 dir1 sub1 _ _ _ fresh1] Cons.prems(4,5,6) by auto
  have k'not: "?k' \<notin> fst ` set imgs" using fresh Cons.prems(3) by auto
  have fl: "filter (\<lambda>(x, c). x \<notin> fst ` set imgs) ?cur'
      = filter (\<lambda>(x, c). x \<notin> fst ` set (img # imgs)) cur @ [(?k', c)]"
    using k'not img by (auto intro!: filter_cong)
  have rt': "root w' = put dir (Directory (filter (\<lambda>(x, c). x \<notin> fst ` set (img # imgs)) cur @
                                   map (\<lambda>(k, c). (new_name mapping k, c)) (img # imgs))) (root w)"
    unfolding rt fl using img by (simp add: put_put)
  have "list_all stem_only [Rename (dir @ [k]) (dir @ [?k'])]" using so by simp
  hence "stems_only w ?w1" by (rule stems_only_append[rotated]) simp
  hence "stems_only w w'" using so' stems_only_trans by blast
  thus ?case using step run rt' img by simp
qed

lemma height_entry: "(k, c) \<in> set es \<Longrightarrow> height c < height (Directory es)"
proof -
  assume "(k, c) \<in> set es"
  hence "height c \<in> set (map (\<lambda>(k, c). height c) es)" by force
  from maxs_ge[OF this] show ?thesis by simp
qed

lemma filter_jpg_names:
  "map (\<lambda>(k, c). new_name mapping k) (filter (\<lambda>(k, c). fnmatch_jpg k) es)
   = map (new_name mapping) (filter fnmatch_jpg (map fst es))"
  by (induction es) auto

lemma filter_not_renamed:
  "filter (\<lambda>(x, c). x \<notin> fst ` set (filter (\<lambda>(k, c). fnmatch_jpg k) es)) es
   = filter (\<lambda>(k, c). \<not> fnmatch_jpg k) es"
  by (rule filter_cong) force+

lemma renamed_after_renames:
  "renamed mapping (Directory es)
   = Directory (map (\<lambda>(k, c). (k, renamed mapping c)) (after_renames mapping es))"
  by (simp add: after_renames_def Let_def filter_map o_def case_prod_unfold)

lemma set_after_renames: "(k, c) \<in> set (after_renames mapping es) \<Longrightarrow> \<exists>k0. (k0, c) \<in> set es"
  by (auto simp: after_renames_def)

lemma renamable_names:
  assumes "renamable mapping (Directory es)"
  shows "\<forall>(k, c) \<in> set es. fnmatch_jpg k \<longrightarrow> well_mapped mapping k \<and> new_name mapping k \<notin> fst ` set es"
    and "distinct (map (\<lambda>(k, c). new_name mapping k) (filter (\<lambda>(k, c). fnmatch_jpg k) es))"
    and "\<forall>(k, c) \<in> set es. renamable mapping c"
proof -
  have "well_mapped mapping k \<and> new_name mapping k \<notin> fst ` set es"
    if "(k, c) \<in> set es" "fnmatch_jpg k" for k c
  proof -
    have "k \<in> set (filter fnmatch_jpg (map fst es))" using that by force
    thus ?thesis using assms by (simp add: Let_def list_all_iff)
  qed
  thus "\<forall>(k, c) \<in> set es. fnmatch_jpg k \<longrightarrow> well_mapped mapping k \<and> new_name mapping k \<notin> fst ` set es"
    by auto
  show "distinct (map (\<lambda>(k, c). new_name mapping k) (filter (\<lambda>(k, c). fnmatch_jpg k) es))"
    using assms by (simp add: Let_def filter_jpg_names)
  show "\<forall>(k, c) \<in> set es. renamable mapping c"
    using assms by (auto simp: list_all_iff)
qed

lemma new_name_jpg: "fnmatch_jpg k \<Longrightarrow> well_mapped mapping k \<Longrightarrow> fnmatch_jpg (new_name mapping k)"
  using well_mapped_new_name[of k mapping] fnmatch_jpg_append by metis

lemma distinct_after_renames:
  assumes "distinct (map fst es)" "renamable mapping (Directory es)"
  shows "distinct (map fst (after_renames mapping es))"
proof -
  have a: "distinct (map fst (filter (\<lambda>(k, c). \<not> fnmatch_jpg k) es))"
    using assms(1) by (simp add: distinct_map_filter)
  have "map fst (map (\<lambda>(k, c). (new_name mapping k, c)) (filter (\<lambda>(k, c). fnmatch_jpg k) es))
      = map (\<lambda>(k, c). new_name mapping k) (filter (\<lambda>(k, c). fnmatch_jpg k) es)"
    by (simp add: case_prod_beta o_def)
  hence b: "distinct (map fst (map (\<lambda>(k, c). (new_name mapping k, c)) (filter (\<lambda>(k, c). fnmatch_jpg k) es)))"
    using renamable_names(2)[OF assms(2)] by (simp only:)
  have c: "fst ` set (filter (\<lambda>(k, c). \<not> fnmatch_jpg k) es)
      \<inter> fst ` set (map (\<lambda>(k, c). (new_name mapping k, c)) (filter (\<lambda>(k, c). fnmatch_jpg k) es)) = {}"
    using renamable_names(1)[OF assms(2)] by force
  show ?thesis unfolding after_renames_def using a b c by (simp only: map_append distinct_append set_map)
qed

lemma distinct_names_after_renames:
  assumes "distinct_names (Directory es)" "renamable mapping (Directory es)"
  shows "distinct_names (Directory (after_renames mapping es))"
proof -
  have "list_all (\<lambda>(k, c). distinct_names c) (after_renames mapping es)"
    using assms(1) by (auto simp: list_all_iff after_renames_def)
  thus ?thesis using distinct_after_renames[OF _ assms(2)] assms(1) by simp
qed

lemma distinct_names_renamed:
  "distinct_names t \<Longrightarrow> renamable mapping t \<Longrightarrow> distinct_names (renamed mapping t)"
proof (induction t rule: renamed.induct)
  case (1 mapping es)
  have d: "distinct_names (Directory (after_renames mapping es))"
    using distinct_names_after_renames[OF "1.prems"] .
  have "distinct_names (renamed mapping c)" if mem: "(k, c) \<in> set (after_renames mapping es)" for k c
  proof -
    obtain k0 where k0: "(k0, c) \<in> set es" using set_after_renames[OF mem] by blast
    have "distinct_names c" using distinct_names_entry[OF "1.prems"(1) k0] .
    moreover have "renamable mapping c" using renamable_names(3)[OF "1.prems"(2)] k0 by auto
    ultimately show ?thesis using "1.IH"[OF k0 refl] by simp
  qed
  hence "list_all (\<lambda>(k, c). distinct_names c) (map (\<lambda>(k, c). (k, renamed mapping c)) (after_renames mapping es))"
    by (auto simp: list_all_iff)
  moreover have "map fst (map (\<lambda>(k, c). (k, renamed mapping c)) (after_renames mapping es)) = map fst (after_renames mapping es)"
    by (simp add: case_prod_beta o_def)
  ultimately show ?case using d unfolding renamed_after_renames by (simp only: distinct_names.simps)
qed simp_all

lemma renamed_not_directory: "\<not> is_directory c \<Longrightarrow> renamed mapping c = c"
  by (cases c) simp_all

lemma rglob_rename_dirs_children:
  assumes H: "\<And>w d c. distinct_names (root w) \<Longrightarrow> resolve (root w) d = Inr c \<Longrightarrow>
       is_directory c \<Longrightarrow> renamable mapping c \<Longrightarrow> height c \<le> n \<Longrightarrow>
       \<exists>w'. rglob_rename n mapping w d = Some (Done w') \<and>
            root w' = put d (renamed mapping c) (root w) \<and> stems_only w w'"
  shows "distinct_names (root w) \<Longrightarrow> resolve (root w) dir = Inr (Directory (pre @ todo)) \<Longrightarrow>
     \<forall>(k, c) \<in> set todo. renamable mapping c \<and> height c \<le> n \<Longrightarrow>
     \<exists>w'. rglob_rename_dirs n mapping w
            (map (\<lambda>(k, c). dir @ [k]) (filter (\<lambda>(k, c). is_directory c) todo)) = Some (Done w') \<and>
          root w' = put dir (Directory (pre @ map (\<lambda>(k, c). (k, renamed mapping c)) todo)) (root w) \<and>
          stems_only w w'"
proof (induction todo arbitrary: w pre)
  case Nil
  have "put dir (Directory pre) (root w) = root w"
    using put_resolve_id[of "root w" dir "Directory pre"] Nil by simp
  thus ?case by (simp add: stems_only_refl)
next
  case (Cons e todo)
  obtain k c where e: "e = (k, c)" by (cases e)
  have dir: "resolve (root w) dir = Inr (Directory (pre @ (k, c) # todo))"
    using Cons.prems(2) e by simp
  have rest: "\<forall>(k, c) \<in> set todo. renamable mapping c \<and> height c \<le> n"
    using Cons.prems(3) by simp
  show ?case
  proof (cases "is_directory c")
    case False
    have dir': "resolve (root w) dir = Inr (Directory ((pre @ [(k, c)]) @ todo))"
      using dir by simp
    from Cons.IH[OF Cons.prems(1) dir' rest]
    show ?thesis using False e by (simp add: renamed_not_directory)
  next
    case True
    have child: "resolve (root w) (dir @ [k]) = Inr c"
      using resolve_child[OF dir Cons.prems(1)] .
    have good: "renamable mapping c" "height c \<le> n" using Cons.prems(3) e by auto
    obtain w1 where run1: "rglob_rename n mapping w (dir @ [k]) = Some (Done w1)"
      and rt1: "root w1 = put (dir @ [k]) (renamed mapping c) (root w)"
      and so1: "stems_only w w1"
      using H[OF Cons.prems(1) child True good] by blast
    have rt1': "root w1 = put dir (Directory (pre @ (k, renamed mapping c) # todo)) (root w)"
      using rt1 put_child[OF dir Cons.prems(1)] by simp
    have dcur: "distinct_names (Directory (pre @ (k, c) # todo))"
      using distinct_names_resolve[OF dir Cons.prems(1)] .
    have dc: "distinct_names (renamed mapping c)"
      using distinct_names_renamed[OF distinct_names_parts(1)[OF dcur] good(1)] .
    have dn1: "distinct_names (root w1)"
      unfolding rt1 using distinct_names_put[OF Cons.prems(1) dc] .
    have dir1: "resolve (root w1) dir = Inr (Directory ((pre @ [(k, renamed mapping c)]) @ todo))"
      unfolding rt1' using resolve_put[OF dir, of _ "[]"] by simp
    obtain w' where run: "rglob_rename_dirs n mapping w1
            (map (\<lambda>(k, c). dir @ [k]) (filter (\<lambda>(k, c). is_directory c) todo)) = Some (Done w')"
      and rt: "root w' = put dir (Directory ((pre @ [(k, renamed mapping c)]) @
                  map (\<lambda>(k, c). (k, renamed mapping c)) todo)) (root w1)"
      and so: "stems_only w1 w'"
      using Cons.IH[OF dn1 dir1 rest] by blast
    have "root w' = put dir (Directory (pre @ map (\<lambda>(k, c). (k, renamed mapping c)) (e # todo))) (root w)"
      unfolding rt rt1' using e by (simp add: put_put)
    moreover have "stems_only w w'" using so1 so stems_only_trans by blast
    ultimately show ?thesis using run1 run True e by simp
  qed
qed

lemma scandir_directory: "resolve (root w) p = Inr (Directory es) \<Longrightarrow> scandir w p = Inr es"
  by (simp add: scandir_def)

lemma rglob_rename_renamed:
  "distinct_names (root w) \<Longrightarrow> resolve (root w) dir = Inr (Directory es) \<Longrightarrow>
   renamable mapping (Directory es) \<Longrightarrow> height (Directory es) \<le> n \<Longrightarrow>
   \<exists>w'. rglob_rename n mapping w dir = Some (Done w') \<and>
        root w' = put dir (renamed mapping (Directory es)) (root w) \<and> stems_only w w'"
proof (induction n arbitrary: w dir es)
  case 0
  thus ?case by simp
next
  case (Suc n)
  let ?imgs = "filter (\<lambda>(k, c). fnmatch_jpg k) es"
  have dcur: "distinct_names (Directory es)"
    using distinct_names_resolve[OF Suc.prems(2,1)] .
  have d: "distinct es" using dcur distinct_map[of fst es] by simp
  have p1: "set ?imgs \<subseteq> set es" "distinct ?imgs" using d by auto
  have p2: "\<forall>(k, c) \<in> set ?imgs. fnmatch_jpg k \<and> well_mapped mapping k"
    using renamable_names(1)[OF Suc.prems(3)] by auto
  have p3: "\<forall>(k, c) \<in> set ?imgs. new_name mapping k \<notin> fst ` set es"
    using renamable_names(1)[OF Suc.prems(3)] by auto
  obtain w1 where run1: "rename_images mapping w (map (\<lambda>(k, c). dir @ [k]) ?imgs) = Done w1"
    and rt1: "root w1 = put dir (Directory (after_renames mapping es)) (root w)"
    and so1: "stems_only w w1"
    using rename_images_dir[OF Suc.prems(1,2) p1 p2 renamable_names(2)[OF Suc.prems(3)] p3]
    unfolding filter_not_renamed after_renames_def by blast
  have dn1: "distinct_names (root w1)"
    unfolding rt1 using distinct_names_put[OF Suc.prems(1) distinct_names_after_renames[OF dcur Suc.prems(3)]] .
  have dir1: "resolve (root w1) dir = Inr (Directory ([] @ after_renames mapping es))"
    unfolding rt1 using resolve_put[OF Suc.prems(2), of _ "[]"] by simp
  have H: "\<exists>w'. rglob_rename n mapping w d = Some (Done w') \<and>
            root w' = put d (renamed mapping c) (root w) \<and> stems_only w w'"
    if h: "distinct_names (root w)" "resolve (root w) d = Inr c" "is_directory c"
       "renamable mapping c" "height c \<le> n" for w d c
  proof -
    obtain es' where c: "c = Directory es'" using h(3) by (cases c) simp_all
    show ?thesis using Suc.IH[of w d es'] h c by simp
  qed
  have kids: "\<forall>(k, c) \<in> set (after_renames mapping es). renamable mapping c \<and> height c \<le> n"
  proof -
    have "renamable mapping c \<and> height c \<le> n" if mem: "(k, c) \<in> set (after_renames mapping es)" for k c
    proof -
      obtain k0 where k0: "(k0, c) \<in> set es" using set_after_renames[OF mem] by blast
      have "height c < height (Directory es)" using height_entry[OF k0] .
      thus ?thesis using renamable_names(3)[OF Suc.prems(3)] k0 Suc.prems(4) by auto
    qed
    thus ?thesis by auto
  qed
  obtain w' where run: "rglob_rename_dirs n mapping w1
        (map (\<lambda>(k, c). dir @ [k]) (filter (\<lambda>(k, c). is_directory c) (after_renames mapping es))) = Some (Done w')"
    and rt: "root w' = put dir (Directory ([] @ map (\<lambda>(k, c). (k, renamed mapping c)) (after_renames mapping es))) (root w1)"
    and so: "stems_only w1 w'"
    using rglob_rename_dirs_children[where n=n and mapping=mapping and w=w1 and dir=dir
        and pre="[]" and todo="after_renames mapping es", OF H dn1 dir1 kids]
    by blast
  have "root w' = put dir (renamed mapping (Directory es)) (root w)"
    unfolding rt rt1 renamed_after_renames by (simp add: put_put)
  moreover have "stems_only w w'" using so1 so stems_only_trans by blast
  moreover have "scandir w dir = Inr es" using scandir_directory[OF Suc.prems(2)] .
  moreover have "scandir w1 dir = Inr (after_renames mapping es)"
    using scandir_directory[of w1 dir] dir1 by simp
  ultimately show ?case using run1 run by simp
qed

lemma count_after_renames:
  assumes "\<forall>(k, c) \<in> set es. count_jpg (f c) = count_jpg c \<and> (fnmatch_jpg k \<longrightarrow> fnmatch_jpg (g k))"
  shows "sum_list (map (\<lambda>(k, c). (if fnmatch_jpg k then 1 else 0) + count_jpg c)
           (filter (\<lambda>(k, c). \<not> fnmatch_jpg k) (map (\<lambda>(k, c). (k, f c)) es) @
            map (\<lambda>(k, c). (g k, c)) (filter (\<lambda>(k, c). fnmatch_jpg k) (map (\<lambda>(k, c). (k, f c)) es))))
       = sum_list (map (\<lambda>(k, c). (if fnmatch_jpg k then 1 else 0) + count_jpg c) es)"
  using assms by (induction es) auto

lemma count_jpg_renamed:
  "renamable mapping t \<Longrightarrow> count_jpg (renamed mapping t) = count_jpg t"
proof (induction t rule: renamed.induct)
  case (1 mapping es)
  have "\<forall>(k, c) \<in> set es. count_jpg (renamed mapping c) = count_jpg c \<and>
          (fnmatch_jpg k \<longrightarrow> fnmatch_jpg (new_name mapping k))"
  proof -
    have "count_jpg (renamed mapping c) = count_jpg c \<and>
          (fnmatch_jpg k \<longrightarrow> fnmatch_jpg (new_name mapping k))" if mem: "(k, c) \<in> set es" for k c
      using "1.IH"[OF mem refl] renamable_names(1,3)[OF "1.prems"] mem new_name_jpg by fastforce
    thus ?thesis by auto
  qed
  from count_after_renames[of es "renamed mapping" "new_name mapping", OF this]
  show ?case by (simp add: Let_def)
qed simp_all

text \<open>
  C9 as stated says that the number of \<^verbatim>\<open>.jpg\<close> files does not change when the dictionary
  is injective on the stems present.  Here \<^verbatim>\<open>books\<close> holds \<^verbatim>\<open>a.jpg\<close> and \<^verbatim>\<open>b.jpg\<close>, and the
  dictionary sends \<^verbatim>\<open>a\<close> to \<^verbatim>\<open>b\<close> and \<^verbatim>\<open>b\<close> to \<^verbatim>\<open>c\<close>.  The first rename replaces \<^verbatim>\<open>b.jpg\<close>,
  the second moves the result to \<^verbatim>\<open>c.jpg\<close>: the loop completes, and of two files one is
  left.
\<close>

theorem rename_loop_overwrite_counterexample:
  "clashing_titles ''a'' = Some ''b'' \<and> clashing_titles ''b'' = Some ''c'' \<and>
   rename_cell 1 clashing_titles shelf_world [''books''] =
     Some (Done \<lparr>root = Directory [(''books'', Directory [(''c.jpg'', RegularFile ''A'')])],
                  calls = [Rename [''books'', ''a.jpg''] [''books'', ''b.jpg''],
                           Rename [''books'', ''b.jpg''] [''books'', ''c.jpg'']]\<rparr>) \<and>
   rglob_count shelf_world [''books''] = 2 \<and>
   rglob_count \<lparr>root = Directory [(''books'', Directory [(''c.jpg'', RegularFile ''A'')])],
                calls = [Rename [''books'', ''a.jpg''] [''books'', ''b.jpg''],
                         Rename [''books'', ''b.jpg''] [''books'', ''c.jpg'']]\<rparr> [''books''] = 1"
  by code_simp

text \<open>
  A title that is empty leaves the bare suffix as the new name, and pathlib gives a name
  that starts with its only dot no suffix.
\<close>

lemma rename_image_empty_title:
  "rename_image [''a'' \<mapsto> []] shelf_world [''books'', ''a.jpg''] =
     Done \<lparr>root = Directory [(''books'', Directory [(''b.jpg'', RegularFile ''B''),
                                                     (''.jpg'', RegularFile ''A'')])],
           calls = [Rename [''books'', ''a.jpg''] [''books'', ''.jpg'']]\<rparr> \<and>
   suffix [''books'', ''a.jpg''] = ''.jpg'' \<and> suffix [''books'', ''.jpg''] = []"
  by code_simp

text \<open>
  C9, as the code has it.  Let \<^verbatim>\<open>books\<close> be a directory in which, at every level, the
  entries that match \<^verbatim>\<open>*.jpg\<close> are not named \<^verbatim>\<open>.jpg\<close> alone and have their stems in the
  dictionary with values that are not empty and hold no \<^verbatim>\<open>/\<close>, and in which the new names
  of the entries of one directory differ from one another and from every name in that
  directory.  Then the loop completes, given fuel for the height of the tree.  Every call
  it makes renames a path to one with the same parent and the same suffix.  The tree is
  afterwards the one before with each such entry under its new name, and nothing else
  changed; and the number of entries matching \<^verbatim>\<open>*.jpg\<close> below \<^verbatim>\<open>books\<close> is what it was.
\<close>

theorem rename_loop_keeps_place_suffix_and_count:
  assumes "distinct_names (root w)" and "resolve (root w) books = Inr (Directory es)"
    and "renamable mapping (Directory es)" and "height (Directory es) \<le> fuel"
  shows "\<exists>w'. rename_cell fuel mapping w books = Some (Done w') \<and>
     root w' = put books (renamed mapping (Directory es)) (root w) \<and>
     stems_only w w' \<and>
     rglob_count w' books = rglob_count w books"
proof -
  have d: "is_dir w books" using assms(2) by (simp add: is_dir_def)
  obtain w' where run: "rglob_rename fuel mapping w books = Some (Done w')"
    and rt: "root w' = put books (renamed mapping (Directory es)) (root w)"
    and so: "stems_only w w'"
    using rglob_rename_renamed[OF assms] by blast
  have "resolve (root w') books = Inr (renamed mapping (Directory es))"
    unfolding rt using resolve_put[OF assms(2), of _ "[]"] by simp
  hence "rglob_count w' books = rglob_count w books"
    using assms(2) count_jpg_renamed[OF assms(3)] by (simp add: rglob_count_def)
  thus ?thesis using d run rt so by (simp add: rename_cell_def)
qed

theorem rename_loop_keeps_place_suffix_and_count_witness:
  "\<exists>w'. rename_cell 2 book_titles books_world [''books''] = Some (Done w') \<and>
     root w' = Directory
        [(''books'', Directory
           [(''books.json'', RegularFile ''[]''),
            (''more'', Directory [(''alpha.jpg'', RegularFile ''C'')]),
            (''alpha.jpg'', RegularFile ''A''),
            (''beta.jpg'', RegularFile ''B'')])] \<and>
     stems_only books_world w' \<and>
     rglob_count w' [''books''] = 3"
proof -
  let ?es = "[(''books.json'', RegularFile ''[]''),
              (''a.jpg'', RegularFile ''A''),
              (''b.jpg'', RegularFile ''B''),
              (''more'', Directory [(''a.jpg'', RegularFile ''C'')])]"
  have 1: "distinct_names (root books_world)" by (simp add: books_world_def)
  have 2: "resolve (root books_world) [''books''] = Inr (Directory ?es)"
    by (simp add: books_world_def)
  have 3: "renamable book_titles (Directory ?es)" by code_simp
  have 4: "height (Directory ?es) \<le> 2" by simp
  have 5: "put [''books''] (renamed book_titles (Directory ?es)) (root books_world) =
      Directory
        [(''books'', Directory
           [(''books.json'', RegularFile ''[]''),
            (''more'', Directory [(''alpha.jpg'', RegularFile ''C'')]),
            (''alpha.jpg'', RegularFile ''A''),
            (''beta.jpg'', RegularFile ''B'')])]"
    by code_simp
  have 6: "rglob_count books_world [''books''] = 3" by code_simp
  from rename_loop_keeps_place_suffix_and_count[OF 1 2 3 4] show ?thesis
    unfolding 5 6 by blast
qed

section \<open>Properties of \<^verbatim>\<open>rmdir\<close>\<close>








end
